theory Spec2Isabelle
  imports Main
begin

section \<open>Rule 111: OPEN DATASET without MODE or ENCODING\<close>

text \<open>
  A shallow embedding of \<^verbatim>\<open>src/app/app.py\<close>. A Python \<^verbatim>\<open>str\<close> is modelled as a
  \<^typ>\<open>string\<close> whose characters are the code points 0 to 255; the character classes
  \<^verbatim>\<open>\s\<close> and \<^verbatim>\<open>\w\<close> and the case folding of \<^verbatim>\<open>(?i)\<close> are those of Python's
  \<^verbatim>\<open>re\<close> module for \<^verbatim>\<open>str\<close> patterns, restricted to that range. Offsets are
  \<^typ>\<open>nat\<close> where the code gets them from a match and \<^typ>\<open>int\<close> where it
  computes with them.
\<close>

subsection \<open>Models\<close>

text \<open>The class \<^verbatim>\<open>Finding\<close>: every field is \<^verbatim>\<open>Optional\<close>.\<close>

record Finding =
  pgm_name :: "string option"
  inc_name :: "string option"
  type :: "string option"
  name :: "string option"
  start_line :: "int option"
  end_line :: "int option"
  issue_type :: "string option"
  severity :: "string option"
  line :: "int option"
  message :: "string option"
  suggestion :: "string option"
  snippet :: "string option"

text \<open>
  The class \<^verbatim>\<open>Unit\<close>. The same record stands for the dictionary that
  \<^verbatim>\<open>unit.model_dump()\<close> returns, which has one key for each field.
\<close>

record Unit =
  u_pgm_name :: string
  u_inc_name :: string
  u_type :: string
  u_name :: "string option"
  u_start_line :: "int option"
  u_end_line :: "int option"
  u_code :: "string option"
  rule111_findings :: "Finding list option"

subsection \<open>Characters as the \<^verbatim>\<open>re\<close> module sees them\<close>

definition nl :: char where
  "nl = CHR 0x0A"

definition backslash :: char where
  "backslash = CHR 0x5C"

text \<open>\<^verbatim>\<open>\s\<close>: the code points for which \<^verbatim>\<open>str.isspace\<close> holds.\<close>

definition is_space :: "char \<Rightarrow> bool" where
  "is_space c = (let n = (of_char c :: nat) in
     (9 \<le> n \<and> n \<le> 13) \<or> (28 \<le> n \<and> n \<le> 32) \<or> n = 133 \<or> n = 160)"

text \<open>\<^verbatim>\<open>\w\<close>: the alphanumeric code points and the underscore.\<close>

definition is_word :: "char \<Rightarrow> bool" where
  "is_word c = (let n = (of_char c :: nat) in
     (48 \<le> n \<and> n \<le> 57) \<or> (65 \<le> n \<and> n \<le> 90) \<or> n = 95 \<or> (97 \<le> n \<and> n \<le> 122) \<or>
     n = 170 \<or> n = 178 \<or> n = 179 \<or> n = 181 \<or> n = 185 \<or> n = 186 \<or>
     (188 \<le> n \<and> n \<le> 190) \<or> (192 \<le> n \<and> n \<le> 214) \<or> (216 \<le> n \<and> n \<le> 246) \<or>
     (248 \<le> n \<and> n \<le> 255))"

text \<open>The lower-case mapping that \<^verbatim>\<open>(?i)\<close> compares characters under.\<close>

definition lower :: "char \<Rightarrow> char" where
  "lower c = (let n = (of_char c :: nat) in
     if (65 \<le> n \<and> n \<le> 90) \<or> (192 \<le> n \<and> n \<le> 214) \<or> (216 \<le> n \<and> n \<le> 222)
     then char_of (n + 32) else c)"

subsection \<open>The regular expressions\<close>

text \<open>
  The four patterns are sequences of literals, \<^verbatim>\<open>\b\<close>, greedy repetitions of a
  one-character class and one group of two alternatives. All four are compiled with
  \<^verbatim>\<open>(?i)\<close>, so a literal and a negated literal compare lower-cased characters.
\<close>

datatype cls = Space | NonSpace | NotLit char

datatype re = Lit char | Bnd | Star cls | Plus cls | Alt "re list" "re list"

fun in_cls :: "cls \<Rightarrow> char \<Rightarrow> bool" where
  "in_cls Space x = is_space x"
| "in_cls NonSpace x = (\<not> is_space x)"
| "in_cls (NotLit c) x = (lower x \<noteq> lower c)"

definition is_word_opt :: "char option \<Rightarrow> bool" where
  "is_word_opt p = (case p of None \<Rightarrow> False | Some c \<Rightarrow> is_word c)"

fun head_opt :: "string \<Rightarrow> char option" where
  "head_opt [] = None"
| "head_opt (x # xs) = Some x"

text \<open>
  \<^verbatim>\<open>\b\<close> holds between a word character and a character that is not one; the start
  and the end of the searched string count as not a word character.
\<close>

definition at_boundary :: "char option \<Rightarrow> string \<Rightarrow> bool" where
  "at_boundary prev s = (is_word_opt prev \<noteq> is_word_opt (head_opt s))"

text \<open>
  The backtracking matcher. \<open>rmatch p prev s\<close> matches the pattern \<open>p\<close> at the start of
  \<open>s\<close>, where \<open>prev\<close> is the character before \<open>s\<close> in the searched string, and returns
  the number of characters of the first match found: a repetition takes as much as it
  can and gives back one character at a time, a group tries its first alternative first.
\<close>

function rmatch :: "re list \<Rightarrow> char option \<Rightarrow> string \<Rightarrow> nat option" where
  "rmatch [] prev s = Some 0"
| "rmatch (Lit c # r) prev [] = None"
| "rmatch (Lit c # r) prev (x # xs) =
     (if lower x = lower c then map_option Suc (rmatch r (Some x) xs) else None)"
| "rmatch (Bnd # r) prev s = (if at_boundary prev s then rmatch r prev s else None)"
| "rmatch (Star c # r) prev [] = rmatch r prev []"
| "rmatch (Star c # r) prev (x # xs) =
     (if in_cls c x
      then (case rmatch (Star c # r) (Some x) xs of
              Some n \<Rightarrow> Some (Suc n)
            | None \<Rightarrow> rmatch r prev (x # xs))
      else rmatch r prev (x # xs))"
| "rmatch (Plus c # r) prev [] = None"
| "rmatch (Plus c # r) prev (x # xs) =
     (if in_cls c x then map_option Suc (rmatch (Star c # r) (Some x) xs) else None)"
| "rmatch (Alt a b # r) prev s =
     (case rmatch (a @ r) prev s of
        Some n \<Rightarrow> Some n
      | None \<Rightarrow> rmatch (b @ r) prev s)"
  by pat_completeness auto
termination
  by (relation "measures [\<lambda>(p, prev, s). length s, \<lambda>(p, prev, s). size_list size p]")
     (auto simp: size_list_append)

text \<open>
  \<^verbatim>\<open>pattern.search\<close>: the match at the leftmost position that has one. \<open>off\<close> is the
  offset of \<open>s\<close> in the searched string; the result is \<^verbatim>\<open>(m.start(), m.end())\<close>.
\<close>

fun search_from :: "re list \<Rightarrow> char option \<Rightarrow> string \<Rightarrow> nat \<Rightarrow> (nat \<times> nat) option" where
  "search_from p prev [] off =
     (case rmatch p prev [] of Some n \<Rightarrow> Some (off, off + n) | None \<Rightarrow> None)"
| "search_from p prev (x # xs) off =
     (case rmatch p prev (x # xs) of
        Some n \<Rightarrow> Some (off, off + n)
      | None \<Rightarrow> search_from p (Some x) xs (Suc off))"

definition search :: "re list \<Rightarrow> string \<Rightarrow> (nat \<times> nat) option" where
  "search p s = search_from p None s 0"

text \<open>
  \<^verbatim>\<open>pattern.finditer\<close>: the text is scanned from left to right; a position inside
  the previous match is passed over (\<open>skip\<close> counts the characters of that match still
  ahead), any other position is tried, and the search goes on at the end of a match.
  After an empty match the scan moves on by one character; no pattern of this program
  matches the empty string.
\<close>

fun finditer_from :: "re list \<Rightarrow> char option \<Rightarrow> string \<Rightarrow> nat \<Rightarrow> nat \<Rightarrow> (nat \<times> nat) list" where
  "finditer_from p prev [] off skip =
     (if skip = 0
      then (case rmatch p prev [] of Some n \<Rightarrow> [(off, off + n)] | None \<Rightarrow> [])
      else [])"
| "finditer_from p prev (x # xs) off (Suc k) = finditer_from p (Some x) xs (Suc off) k"
| "finditer_from p prev (x # xs) off 0 =
     (case rmatch p prev (x # xs) of
        Some n \<Rightarrow> (off, off + n) # finditer_from p (Some x) xs (Suc off) (n - 1)
      | None \<Rightarrow> finditer_from p (Some x) xs (Suc off) 0)"

definition finditer :: "re list \<Rightarrow> string \<Rightarrow> (nat \<times> nat) list" where
  "finditer p s = finditer_from p None s 0 0"

definition lits :: "string \<Rightarrow> re list" where
  "lits w = map Lit w"

definition STMT_RE :: "re list" where
  "STMT_RE = [Bnd] @ lits ''OPEN'' @ [Plus Space] @ lits ''DATASET'' @
     [Bnd, Star (NotLit (CHR ''.'')), Lit (CHR ''.'')]"

definition MODE_RE :: "re list" where
  "MODE_RE = [Bnd] @ lits ''IN'' @ [Plus Space, Alt (lits ''TEXT'') (lits ''BINARY''),
     Plus Space] @ lits ''MODE'' @ [Bnd]"

definition TEXT_MODE_RE :: "re list" where
  "TEXT_MODE_RE = [Bnd] @ lits ''IN'' @ [Plus Space] @ lits ''TEXT'' @ [Plus Space] @
     lits ''MODE'' @ [Bnd]"

definition ENCODING_RE :: "re list" where
  "ENCODING_RE = [Bnd] @ lits ''ENCODING'' @ [Bnd, Plus Space, Plus NonSpace]"

subsection \<open>Utility helpers\<close>

text \<open>A slice \<^verbatim>\<open>t[i:j]\<close>: a negative index counts from the end, both are clamped.\<close>

definition py_slice :: "string \<Rightarrow> int \<Rightarrow> int \<Rightarrow> string" where
  "py_slice t i j =
     (let n = int (length t);
          i' = (if i < 0 then max 0 (i + n) else min i n);
          j' = (if j < 0 then max 0 (j + n) else min j n)
      in take (nat (j' - i')) (drop (nat i') t))"

text \<open>\<^verbatim>\<open>s.replace(old, new)\<close> for a one-character \<open>old\<close>.\<close>

fun replace :: "string \<Rightarrow> char \<Rightarrow> string \<Rightarrow> string" where
  "replace [] old new = []"
| "replace (x # xs) old new = (if x = old then new else [x]) @ replace xs old new"

definition line_of_offset :: "string \<Rightarrow> int \<Rightarrow> int" where
  "line_of_offset text off = int (count_list (py_slice text 0 off) nl) + 1"

definition snippet_at :: "string \<Rightarrow> int \<Rightarrow> int \<Rightarrow> string" where
  "snippet_at text start end =
     (let s = max 0 (start - 60);
          e = min (int (length text)) (end + 60)
      in replace (py_slice text s e) nl [backslash, CHR ''n''])"

subsection \<open>Rule detection logic\<close>

text \<open>The body of the loop over the matches: \<open>findings\<close> is the list built so far.\<close>

definition scan_match :: "Unit \<Rightarrow> string \<Rightarrow> Finding list \<Rightarrow> nat \<times> nat \<Rightarrow> Finding list" where
  "scan_match unit src findings m =
     (let stmt = py_slice src (int (fst m)) (int (snd m));
          start = int (fst m);
          end = int (snd m);
          has_mode = (search MODE_RE stmt \<noteq> None);
          is_text_mode = (search TEXT_MODE_RE stmt \<noteq> None);
          has_encoding = (search ENCODING_RE stmt \<noteq> None)
      in if \<not> has_mode then
           findings @ [\<lparr>
             pgm_name = Some (u_pgm_name unit),
             inc_name = Some (u_inc_name unit),
             type = Some (u_type unit),
             name = u_name unit,
             start_line = u_start_line unit,
             end_line = u_end_line unit,
             issue_type = Some ''OpenDatasetNoMode'',
             severity = Some ''warning'',
             line = Some (line_of_offset src start),
             message = Some ''OPEN DATASET without MODE or ENCODING.'',
             suggestion = Some ''Specify IN TEXT MODE ENCODING UTF-8 or IN BINARY MODE. OPEN DATASET without MODE or ENCODING.'',
             snippet = Some (snippet_at src start end)\<rparr>]
         else if is_text_mode \<and> \<not> has_encoding then
           findings @ [\<lparr>
             pgm_name = Some (u_pgm_name unit),
             inc_name = Some (u_inc_name unit),
             type = Some (u_type unit),
             name = u_name unit,
             start_line = u_start_line unit,
             end_line = u_end_line unit,
             issue_type = Some ''OpenDatasetTextNoEncoding'',
             severity = Some ''info'',
             line = Some (line_of_offset src start),
             message = Some ''OPEN DATASET in TEXT MODE without explicit ENCODING.'',
             suggestion = Some ''Add ENCODING UTF-8 (or the required codepage). OPEN DATASET without MODE or ENCODING.'',
             snippet = Some (snippet_at src start end)\<rparr>]
         else findings)"

text \<open>\<^verbatim>\<open>unit.code or ""\<close>: an absent and an empty code are both the empty text.\<close>

definition code_or_empty :: "Unit \<Rightarrow> string" where
  "code_or_empty unit = (case u_code unit of None \<Rightarrow> [] | Some c \<Rightarrow> if c = [] then [] else c)"

definition scan_unit :: "Unit \<Rightarrow> Unit" where
  "scan_unit unit =
     (let src = code_or_empty unit;
          findings = foldl (scan_match unit src) [] (finditer STMT_RE src)
      in unit\<lparr>rule111_findings := Some findings\<rparr>)"

subsection \<open>Endpoints\<close>

text \<open>A list is true when it is not empty; \<^verbatim>\<open>None\<close> is false.\<close>

definition truthy :: "Finding list option \<Rightarrow> bool" where
  "truthy v = (case v of None \<Rightarrow> False | Some fs \<Rightarrow> fs \<noteq> [])"

definition scan_rule111 :: "Unit list \<Rightarrow> Unit list" where
  "scan_rule111 units =
     foldl (\<lambda>results u. let res = scan_unit u
                         in if truthy (rule111_findings res) then results @ [res] else results)
           [] units"

subsection \<open>The specification's notions\<close>

text \<open>
  Two strings are equal case-insensitively when they are equal after lower-casing.
  A whitespace run is not empty. A token starts where the text before it is empty or
  ends with a character that is not a word character, and ends where the text after
  it is empty or starts with such a character.
\<close>

definition ci_eq :: "string \<Rightarrow> string \<Rightarrow> bool" where
  "ci_eq a b = (map lower a = map lower b)"

definition whitespace :: "string \<Rightarrow> bool" where
  "whitespace w = (w \<noteq> [] \<and> (\<forall>c\<in>set w. is_space c))"

definition word_start :: "string \<Rightarrow> bool" where
  "word_start a = (a = [] \<or> \<not> is_word (last a))"

definition word_end :: "string \<Rightarrow> bool" where
  "word_end b = (b = [] \<or> \<not> is_word (hd b))"

text \<open>
  \<open>stmt_span t s e\<close>: at offset \<open>s\<close> of \<open>t\<close> the token sequence OPEN DATASET occurs
  (any letter case, a whitespace run between the two words), and \<open>e\<close> is the offset
  just after the first \<^verbatim>\<open>.\<close> that follows it.
\<close>

definition stmt_span :: "string \<Rightarrow> nat \<Rightarrow> nat \<Rightarrow> bool" where
  "stmt_span t s e =
     (\<exists>a o' w d body b.
        t = a @ o' @ w @ d @ body @ [CHR ''.''] @ b \<and>
        s = length a \<and> e = length t - length b \<and>
        word_start a \<and> ci_eq o' ''OPEN'' \<and> whitespace w \<and> ci_eq d ''DATASET'' \<and>
        word_end (body @ [CHR ''.'']) \<and> CHR ''.'' \<notin> set body)"

text \<open>
  \<open>spans_ok t pos spans\<close>: \<open>spans\<close> is what a search from offset \<open>pos\<close> yields when it
  takes the leftmost statement span and resumes at its end.
\<close>

fun spans_ok :: "string \<Rightarrow> nat \<Rightarrow> (nat \<times> nat) list \<Rightarrow> bool" where
  "spans_ok t pos [] = (\<forall>s e. pos \<le> s \<longrightarrow> \<not> stmt_span t s e)"
| "spans_ok t pos ((s, e) # r) =
     (pos \<le> s \<and> stmt_span t s e \<and>
      (\<forall>i e'. pos \<le> i \<and> i < s \<longrightarrow> \<not> stmt_span t i e') \<and>
      spans_ok t e r)"

text \<open>The text of a span, and an occurrence of OPEN DATASET, token or not, with a
  \<^verbatim>\<open>.\<close> somewhere after it.\<close>

definition span_text :: "string \<Rightarrow> nat \<times> nat \<Rightarrow> string" where
  "span_text t m = take (snd m - fst m) (drop (fst m) t)"

definition open_dataset_dot :: "string \<Rightarrow> bool" where
  "open_dataset_dot t =
     (\<exists>a o' w d b. t = a @ o' @ w @ d @ b \<and> ci_eq o' ''OPEN'' \<and> whitespace w \<and>
        ci_eq d ''DATASET'' \<and> CHR ''.'' \<in> set b)"

text \<open>The three facts of the clause classifier, as phrases of tokens in the statement.\<close>

definition spec_has_mode :: "string \<Rightarrow> bool" where
  "spec_has_mode stmt =
     (\<exists>a i w1 k w2 m b.
        stmt = a @ i @ w1 @ k @ w2 @ m @ b \<and>
        word_start a \<and> ci_eq i ''IN'' \<and> whitespace w1 \<and>
        (ci_eq k ''TEXT'' \<or> ci_eq k ''BINARY'') \<and> whitespace w2 \<and>
        ci_eq m ''MODE'' \<and> word_end b)"

definition spec_is_text_mode :: "string \<Rightarrow> bool" where
  "spec_is_text_mode stmt =
     (\<exists>a i w1 k w2 m b.
        stmt = a @ i @ w1 @ k @ w2 @ m @ b \<and>
        word_start a \<and> ci_eq i ''IN'' \<and> whitespace w1 \<and>
        ci_eq k ''TEXT'' \<and> whitespace w2 \<and>
        ci_eq m ''MODE'' \<and> word_end b)"

definition spec_has_encoding :: "string \<Rightarrow> bool" where
  "spec_has_encoding stmt =
     (\<exists>a k w v b.
        stmt = a @ k @ w @ v @ b \<and>
        word_start a \<and> ci_eq k ''ENCODING'' \<and> whitespace w \<and>
        v \<noteq> [] \<and> (\<forall>c\<in>set v. \<not> is_space c))"

text \<open>The two-step policy: issue type, severity and message of the finding, if any.\<close>

definition spec_policy :: "string \<Rightarrow> (string option \<times> string option \<times> string option) list" where
  "spec_policy stmt =
     (if \<not> spec_has_mode stmt then
        [(Some ''OpenDatasetNoMode'', Some ''warning'',
          Some ''OPEN DATASET without MODE or ENCODING.'')]
      else if spec_is_text_mode stmt \<and> \<not> spec_has_encoding stmt then
        [(Some ''OpenDatasetTextNoEncoding'', Some ''info'',
          Some ''OPEN DATASET in TEXT MODE without explicit ENCODING.'')]
      else [])"

text \<open>
  The spans that get a finding; the window of the snippet, from 60 characters before the
  start of the span to 60 characters after its end, both bounds clamped to the text;
  the escaping of newlines; and the line of an offset.
\<close>

definition clamp :: "int \<Rightarrow> int \<Rightarrow> int" where
  "clamp n x = max 0 (min n x)"

definition window :: "string \<Rightarrow> nat \<times> nat \<Rightarrow> string" where
  "window t m =
     map (\<lambda>i. t ! i)
       [nat (clamp (int (length t)) (int (fst m) - 60)) ..<
        nat (clamp (int (length t)) (int (snd m) + 60))]"

definition escape_newlines :: "string \<Rightarrow> string" where
  "escape_newlines w = concat (map (\<lambda>c. if c = nl then [backslash, CHR ''n''] else [c]) w)"

definition spec_line :: "string \<Rightarrow> nat \<Rightarrow> int" where
  "spec_line t s = int (card {i. i < s \<and> i < length t \<and> t ! i = nl}) + 1"

definition flagged :: "string \<Rightarrow> (nat \<times> nat) list" where
  "flagged t = filter (\<lambda>m. spec_policy (span_text t m) \<noteq> []) (finditer STMT_RE t)"

text \<open>
  \<open>recase t t'\<close>: the text \<open>t'\<close> comes from \<open>t\<close> by replacing occurrences of the
  keywords, in any letter case, with letter-case variants of them.
\<close>

definition keyword_list :: "string list" where
  "keyword_list = [''OPEN'', ''DATASET'', ''IN'', ''TEXT'', ''BINARY'', ''MODE'', ''ENCODING'']"

inductive recase :: "string \<Rightarrow> string \<Rightarrow> bool" where
  same: "recase t t"
| variant: "recase t (a @ k @ b) \<Longrightarrow> kw \<in> set keyword_list \<Longrightarrow> ci_eq k kw \<Longrightarrow> ci_eq k' kw \<Longrightarrow>
     recase t (a @ k' @ b)"

subsection \<open>Auxiliary notions of the proofs\<close>

text \<open>The character before a position, after the text \<open>a\<close> has been passed.\<close>

definition last_opt :: "char option \<Rightarrow> string \<Rightarrow> char option" where
  "last_opt prev a = (if a = [] then prev else Some (last a))"

text \<open>The rest \<open>k\<close> of a pattern cannot start with a character of the class \<open>c\<close>.\<close>

definition stops :: "cls \<Rightarrow> re list \<Rightarrow> bool" where
  "stops c k = (\<forall>x xs pr. in_cls c x \<longrightarrow> rmatch k pr (x # xs) = None)"

text \<open>Two optional characters that are equal up to letter case.\<close>

definition lower_opt_eq :: "char option \<Rightarrow> char option \<Rightarrow> bool" where
  "lower_opt_eq p q = (map_option lower p = map_option lower q)"

text \<open>The pattern \<open>p\<close> has a match at the start of \<open>s\<close>.\<close>

definition accepts :: "re list \<Rightarrow> char option \<Rightarrow> string \<Rightarrow> bool" where
  "accepts p prev s = (\<exists>n. rmatch p prev s = Some n)"

subsection \<open>Example units\<close>

definition example_unit :: Unit where
  "example_unit = \<lparr>u_pgm_name = ''ZPROG'', u_inc_name = ''ZINC'', u_type = ''FORM'',
     u_name = Some ''READ_FILE'', u_start_line = Some 10, u_end_line = Some 20,
     u_code = Some ''OPEN DATASET f.'', rule111_findings = None\<rparr>"

definition clean_unit :: Unit where
  "clean_unit = \<lparr>u_pgm_name = ''ZPROG'', u_inc_name = ''ZTOP'', u_type = ''PROG'',
     u_name = Some '''', u_start_line = Some 0, u_end_line = Some 0,
     u_code = Some ''WRITE x.'', rule111_findings = None\<rparr>"

definition dotless_unit :: Unit where
  "dotless_unit = \<lparr>u_pgm_name = ''ZPROG'', u_inc_name = ''ZTOP'', u_type = ''PROG'',
     u_name = None, u_start_line = None, u_end_line = None,
     u_code = Some ''OPEN DATASET f'', rule111_findings = None\<rparr>"

definition two_line_unit :: Unit where
  "two_line_unit = \<lparr>u_pgm_name = ''ZPROG'', u_inc_name = ''ZINC'', u_type = ''FORM'',
     u_name = Some ''READ_FILE'', u_start_line = Some 10, u_end_line = Some 20,
     u_code = Some (''x.'' @ [nl] @ ''open dataset f.''), rule111_findings = None\<rparr>"

definition long_unit :: Unit where
  "long_unit = \<lparr>u_pgm_name = ''ZPROG'', u_inc_name = ''ZINC'', u_type = ''FORM'',
     u_name = Some ''READ_FILE'', u_start_line = Some 10, u_end_line = Some 20,
     u_code = Some (replicate 60 (CHR ''*'') @ ''OPEN DATASET.'' @ replicate 60 (CHR ''*'')),
     rule111_findings = None\<rparr>"

section \<open>Properties of the characters\<close>

lemma is_word_lower: "is_word (lower x) = is_word x"
  unfolding is_word_def lower_def Let_def
  by (auto simp: of_char_of mod_if) 

lemma is_space_lower: "is_space (lower x) = is_space x"
  unfolding is_space_def lower_def Let_def
  by (auto simp: mod_if)

lemma space_not_word: "is_space x \<Longrightarrow> \<not> is_word x"
  unfolding is_space_def is_word_def Let_def by auto

lemma of_char_lower:
  "(of_char (lower x) :: nat) =
     (if (65 \<le> (of_char x :: nat) \<and> (of_char x :: nat) \<le> 90) \<or> (192 \<le> (of_char x :: nat) \<and> (of_char x :: nat) \<le> 214) \<or> (216 \<le> (of_char x :: nat) \<and> (of_char x :: nat) \<le> 222)
      then of_char x + 32 else of_char x)"
  unfolding lower_def Let_def by (auto simp: mod_if)

lemma lower_eq_nl: "(lower x = nl) = (x = nl)"
proof -
  have "(lower x = nl) = ((of_char (lower x) :: nat) = of_char nl)" by (simp only: of_char_eq_iff)
  also have "\<dots> = ((of_char x :: nat) = of_char nl)"
    by (auto simp: of_char_lower nl_def)
  also have "\<dots> = (x = nl)" by (simp only: of_char_eq_iff)
  finally show ?thesis .
qed

lemma lower_idem: "lower (lower x) = lower x"
  unfolding lower_def Let_def
  by (auto simp: mod_if)

section \<open>Properties of the matcher\<close>

lemma rmatch_lits:
  "rmatch (lits w @ r) prev s =
     (if length w \<le> length s \<and> map lower (take (length w) s) = map lower w
      then map_option ((+) (length w)) (rmatch r (last_opt prev (take (length w) s)) (drop (length w) s))
      else None)"
proof (induction w arbitrary: prev s)
  case Nil
  then show ?case by (cases "rmatch r prev s") (simp_all add: lits_def last_opt_def)
next
  case (Cons c w)
  show ?case
  proof (cases s)
    case Nil
    then show ?thesis by (simp add: lits_def)
  next
    case (Cons x xs)
    have "rmatch (lits w @ r) (Some x) xs = (if length w \<le> length xs \<and> map lower (take (length w) xs) = map lower w
      then map_option ((+) (length w)) (rmatch r (last_opt (Some x) (take (length w) xs)) (drop (length w) xs))
      else None)" using Cons.IH by blast
    moreover have "last_opt (Some x) (take (length w) xs) = last_opt prev (take (length (c # w)) (x # xs))"
      by (auto simp: last_opt_def)
    ultimately show ?thesis using Cons
      by (auto simp: lits_def option.map_comp comp_def)
  qed
qed

lemma stopsD: "stops c k \<Longrightarrow> in_cls c x \<Longrightarrow> rmatch k pr (x # xs) = None"
  unfolding stops_def by blast

lemma star_det:
  assumes "stops c k"
  shows "rmatch (Star c # k) prev s =
     map_option ((+) (length (takeWhile (in_cls c) s)))
       (rmatch k (last_opt prev (takeWhile (in_cls c) s)) (dropWhile (in_cls c) s))"
proof (induction s arbitrary: prev)
  case Nil
  then show ?case by (simp add: last_opt_def option.map_ident)
next
  case (Cons x xs)
  show ?case
  proof (cases "in_cls c x")
    case True
    have e: "last_opt (Some x) (takeWhile (in_cls c) xs) = last_opt prev (takeWhile (in_cls c) (x # xs))"
      using True by (simp add: last_opt_def)
    show ?thesis
    proof (cases "rmatch (Star c # k) (Some x) xs")
      case None
      then show ?thesis using True Cons.IH[of "Some x"] stopsD[OF assms True] e by simp
    next
      case (Some n)
      then show ?thesis using True Cons.IH[of "Some x"] e by (auto simp: option.map_comp comp_def)
    qed
  next
    case False
    then show ?thesis by (simp add: last_opt_def option.map_ident)
  qed
qed


lemma ci_eq_length: "ci_eq a b \<Longrightarrow> length a = length b"
  unfolding ci_eq_def by (metis length_map)

lemma rmatch_lits_iff:
  "rmatch (lits w @ r) prev s = Some n \<longleftrightarrow>
     (\<exists>o' rest m. s = o' @ rest \<and> ci_eq o' w \<and> rmatch r (last_opt prev o') rest = Some m \<and> n = length o' + m)"
  (is "?L = ?R")
proof
  assume ?L
  then have a: "length w \<le> length s" "map lower (take (length w) s) = map lower w"
    and b: "map_option ((+) (length w)) (rmatch r (last_opt prev (take (length w) s)) (drop (length w) s)) = Some n"
    by (auto simp: rmatch_lits split: if_splits)
  from b obtain m where m: "rmatch r (last_opt prev (take (length w) s)) (drop (length w) s) = Some m" "n = length w + m"
    by auto
  show ?R
    apply (rule exI[of _ "take (length w) s"], rule exI[of _ "drop (length w) s"], rule exI[of _ m])
    using a m by (simp add: ci_eq_def)
next
  assume ?R
  then obtain o' rest m where h: "s = o' @ rest" "ci_eq o' w" "rmatch r (last_opt prev o') rest = Some m" "n = length o' + m"
    by blast
  have l: "length o' = length w" using h(2) by (rule ci_eq_length)
  show ?L using h l by (simp add: rmatch_lits ci_eq_def)
qed

lemma rmatch_lits_None:
  "rmatch (lits w @ r) prev s = None \<longleftrightarrow>
     (\<forall>o' rest. s = o' @ rest \<and> ci_eq o' w \<longrightarrow> rmatch r (last_opt prev o') rest = None)"
  using rmatch_lits_iff[of w r prev s]
  by (metis not_Some_eq)

lemma star_det_iff:
  assumes "stops c k"
  shows "rmatch (Star c # k) prev s = Some n \<longleftrightarrow>
     (\<exists>w rest m. s = w @ rest \<and> (\<forall>x\<in>set w. in_cls c x) \<and>
        rmatch k (last_opt prev w) rest = Some m \<and> n = length w + m)"
  (is "?L = ?R")
proof
  assume ?L
  then obtain m where m: "rmatch k (last_opt prev (takeWhile (in_cls c) s)) (dropWhile (in_cls c) s) = Some m"
     "n = length (takeWhile (in_cls c) s) + m"
    by (auto simp: star_det[OF assms])
  show ?R
    apply (rule exI[of _ "takeWhile (in_cls c) s"], rule exI[of _ "dropWhile (in_cls c) s"], rule exI[of _ m])
    using m by (auto dest: set_takeWhileD)
next
  assume ?R
  then obtain w rest m where h: "s = w @ rest" "\<forall>x\<in>set w. in_cls c x"
     "rmatch k (last_opt prev w) rest = Some m" "n = length w + m" by blast
  have r: "rest = [] \<or> \<not> in_cls c (hd rest)"
    using h(3) stopsD[OF assms] by (cases rest) auto
  have "takeWhile (in_cls c) (w @ rest) = w"
    using r h(2) by (cases rest) (simp_all add: takeWhile_append2)
  moreover have "dropWhile (in_cls c) (w @ rest) = rest"
    using r h(2) by (cases rest) (simp_all add: dropWhile_append2)
  ultimately show ?L using h by (simp add: star_det[OF assms])
qed

lemma plus_det_iff:
  assumes "stops c k"
  shows "rmatch (Plus c # k) prev s = Some n \<longleftrightarrow>
     (\<exists>w rest m. s = w @ rest \<and> w \<noteq> [] \<and> (\<forall>x\<in>set w. in_cls c x) \<and>
        rmatch k (Some (last w)) rest = Some m \<and> n = length w + m)"
  (is "?L = ?R")
proof
  assume l: ?L
  then obtain x xs where s: "s = x # xs" by (cases s) simp_all
  from l s have x: "in_cls c x" by (simp split: if_splits)
  from l s x obtain n' where n': "rmatch (Star c # k) (Some x) xs = Some n'" "n = Suc n'"
    by auto
  from star_det_iff[OF assms, THEN iffD1, OF n'(1)]
  obtain w rest m where h: "xs = w @ rest" "\<forall>x\<in>set w. in_cls c x"
     "rmatch k (last_opt (Some x) w) rest = Some m" "n' = length w + m"
    by blast
  have "last_opt (Some x) w = Some (last (x # w))" by (simp add: last_opt_def)
  with h(3) have "rmatch k (Some (last (x # w))) rest = Some m" by simp
  moreover have "s = (x # w) @ rest" using s h(1) by simp
  moreover have "\<forall>y\<in>set (x # w). in_cls c y" using x h(2) by simp
  moreover have "n = length (x # w) + m" using n'(2) h(4) by simp
  ultimately show ?R by blast
next
  assume ?R
  then obtain w rest m where h: "s = w @ rest" "w \<noteq> []" "\<forall>x\<in>set w. in_cls c x"
     "rmatch k (Some (last w)) rest = Some m" "n = length w + m" by blast
  then obtain x w' where w: "w = x # w'" by (cases w) auto
  have "last_opt (Some x) w' = Some (last w)" using w by (simp add: last_opt_def)
  with h(4) have "rmatch k (last_opt (Some x) w') rest = Some m" by simp
  moreover have "\<forall>y\<in>set w'. in_cls c y" using h(3) w by simp
  ultimately have "\<exists>w rest' m'. w' @ rest = w @ rest' \<and> (\<forall>x\<in>set w. in_cls c x) \<and>
        rmatch k (last_opt (Some x) w) rest' = Some m' \<and> length w' + m = length w + m'"
    by blast
  from star_det_iff[OF assms, THEN iffD2, OF this]
  have "rmatch (Star c # k) (Some x) (w' @ rest) = Some (length w' + m)" .
  moreover have "in_cls c x" using h(3) w by simp
  ultimately show ?L using h(1,5) w by simp
qed


section \<open>The statement pattern\<close>

lemma lower_eq_dot: "(lower x = lower (CHR ''.'')) = (x = CHR ''.'')"
proof -
  have d: "lower (CHR ''.'') = CHR ''.''" by (simp add: lower_def)
  have "(lower x = CHR ''.'') = ((of_char (lower x) :: nat) = of_char (CHR ''.''))"
    by (simp only: of_char_eq_iff)
  also have "\<dots> = ((of_char x :: nat) = of_char (CHR ''.''))"
    by (auto simp: of_char_lower)
  also have "\<dots> = (x = CHR ''.'')" by (simp only: of_char_eq_iff)
  finally show ?thesis using d by simp
qed

lemma space_lower_neq: "is_space x \<Longrightarrow> is_word c \<Longrightarrow> lower x \<noteq> lower c"
  by (metis is_space_lower is_word_lower space_not_word)

lemma ci_eq_is_word: "ci_eq a b \<Longrightarrow> map is_word a = map is_word b"
proof -
  assume "ci_eq a b"
  then have "map is_word (map lower a) = map is_word (map lower b)" by (simp add: ci_eq_def)
  then show ?thesis by (simp add: comp_def is_word_lower)
qed

lemma ci_eq_words:
  assumes "ci_eq a b" "b \<noteq> []" "\<forall>c\<in>set b. is_word c"
  shows "a \<noteq> []" "is_word (hd a)" "is_word (last a)"
proof -
  have m: "map is_word a = map is_word b" using assms(1) by (rule ci_eq_is_word)
  show a: "a \<noteq> []" using m assms(2) by auto
  have "\<forall>c\<in>set a. is_word c"
  proof
    fix c assume "c \<in> set a"
    then have "is_word c \<in> set (map is_word b)" using m by (metis image_eqI set_map)
    then show "is_word c" using assms(3) by auto
  qed
  then show "is_word (hd a)" "is_word (last a)" using a by simp_all
qed

lemma at_boundary_word:
  "s \<noteq> [] \<Longrightarrow> is_word (hd s) \<Longrightarrow> at_boundary prev s = (\<not> is_word_opt prev)"
  by (cases s) (simp_all add: at_boundary_def is_word_opt_def)

lemma at_boundary_after_word:
  "is_word c \<Longrightarrow> at_boundary (Some c) s = word_end s"
  by (cases s) (simp_all add: at_boundary_def is_word_opt_def word_end_def)

lemma word_start_last_opt: "word_start a = (\<not> is_word_opt (last_opt None a))"
  by (simp add: word_start_def last_opt_def is_word_opt_def)

lemma last_opt_append: "last_opt prev (a @ b) = last_opt (last_opt prev a) b"
  by (simp add: last_opt_def)

lemma stops_lits:
  assumes "w \<noteq> []" "\<forall>x. in_cls c x \<longrightarrow> lower x \<noteq> lower (hd w)"
  shows "stops c (lits w @ r)"
  using assms by (cases w) (simp_all add: stops_def lits_def)

lemma stops_space_lits:
  assumes "w \<noteq> []" "is_word (hd w)"
  shows "stops Space (lits w @ r)"
  using assms by (intro stops_lits) (simp_all add: space_lower_neq)

lemma rmatch_dot_iff:
  "rmatch [Lit (CHR ''.'')] prev s = Some n \<longleftrightarrow> (\<exists>b. s = CHR ''.'' # b \<and> n = 1)"
  by (cases s) (auto simp: lower_eq_dot)

lemma stops_notdot: "stops (NotLit (CHR ''.'')) [Lit (CHR ''.'')]"
  by (simp add: stops_def)

lemma rmatch_body_iff:
  "rmatch [Star (NotLit (CHR ''.'')), Lit (CHR ''.'')] prev s = Some n \<longleftrightarrow>
     (\<exists>body b. s = body @ [CHR ''.''] @ b \<and> CHR ''.'' \<notin> set body \<and> n = length body + 1)"
  (is "?L = ?R")
proof
  assume ?L
  from star_det_iff[OF stops_notdot, THEN iffD1, OF this]
  obtain w rest m where h: "s = w @ rest" "\<forall>x\<in>set w. in_cls (NotLit (CHR ''.'')) x"
     "rmatch [Lit (CHR ''.'')] (last_opt prev w) rest = Some m" "n = length w + m"
    by blast
  from h(3) obtain b where b: "rest = CHR ''.'' # b" "m = 1" by (auto simp: rmatch_dot_iff)
  have "CHR ''.'' \<notin> set w" using h(2) by (auto simp: lower_eq_dot)
  then show ?R using h(1,4) b by auto
next
  assume ?R
  then obtain body b where h: "s = body @ [CHR ''.''] @ b" "CHR ''.'' \<notin> set body" "n = length body + 1"
    by blast
  have "\<forall>x\<in>set body. in_cls (NotLit (CHR ''.'')) x" using h(2) by (auto simp: lower_eq_dot)
  moreover have "rmatch [Lit (CHR ''.'')] (last_opt prev body) (CHR ''.'' # b) = Some 1"
    by (simp add: rmatch_dot_iff)
  ultimately have "\<exists>w rest m. s = w @ rest \<and> (\<forall>x\<in>set w. in_cls (NotLit (CHR ''.'')) x) \<and>
        rmatch [Lit (CHR ''.'')] (last_opt prev w) rest = Some m \<and> n = length w + m"
    using h(1,3) by (intro exI[of _ body] exI[of _ "CHR ''.'' # b"] exI[of _ 1]) simp
  then show ?L by (rule star_det_iff[OF stops_notdot, THEN iffD2])
qed

lemma rmatch_litsI:
  "ci_eq o' w \<Longrightarrow> rmatch r (last_opt prev o') rest = Some m \<Longrightarrow>
   rmatch (lits w @ r) prev (o' @ rest) = Some (length o' + m)"
  using rmatch_lits_iff by blast

lemma plus_detI:
  "stops c k \<Longrightarrow> w \<noteq> [] \<Longrightarrow> \<forall>x\<in>set w. in_cls c x \<Longrightarrow>
   rmatch k (Some (last w)) rest = Some m \<Longrightarrow>
   rmatch (Plus c # k) prev (w @ rest) = Some (length w + m)"
  using plus_det_iff by blast

lemma word_end_append: "a \<noteq> [] \<Longrightarrow> word_end (a @ b) = word_end a"
  by (cases a) (simp_all add: word_end_def)

lemma OPEN_words: "\<forall>c\<in>set ''OPEN''. is_word c"
  by (simp add: is_word_def)

lemma DATASET_words: "\<forall>c\<in>set ''DATASET''. is_word c"
  by (simp add: is_word_def)

lemma STMT_RE_shape:
  "STMT_RE = Bnd # lits ''OPEN'' @ Plus Space # lits ''DATASET'' @
     [Bnd, Star (NotLit (CHR ''.'')), Lit (CHR ''.'')]"
  by (simp add: STMT_RE_def)

lemma rmatch_STMT_iff:
  "rmatch STMT_RE prev s = Some n \<longleftrightarrow>
     (\<not> is_word_opt prev \<and>
      (\<exists>o' w d body b.
         s = o' @ w @ d @ body @ [CHR ''.''] @ b \<and>
         ci_eq o' ''OPEN'' \<and> whitespace w \<and> ci_eq d ''DATASET'' \<and>
         word_end (body @ [CHR ''.'']) \<and> CHR ''.'' \<notin> set body \<and>
         n = length o' + length w + length d + length body + 1))"
  (is "?L = ?R")
proof
  let ?T = "[Bnd, Star (NotLit (CHR ''.'')), Lit (CHR ''.'')]"
  let ?D = "lits ''DATASET'' @ ?T"
  assume l: ?L
  then have b0: "at_boundary prev s"
    and m0: "rmatch (lits ''OPEN'' @ Plus Space # ?D) prev s = Some n"
    by (simp_all add: STMT_RE_shape split: if_splits)
  from rmatch_lits_iff[THEN iffD1, OF m0]
  obtain o' r1 m1 where h1: "s = o' @ r1" "ci_eq o' ''OPEN''"
     "rmatch (Plus Space # ?D) (last_opt prev o') r1 = Some m1" "n = length o' + m1"
    by blast
  have st: "stops Space ?D" by (rule stops_space_lits) (simp_all add: is_word_def)
  from plus_det_iff[OF st, THEN iffD1, OF h1(3)]
  obtain w r2 m2 where h2: "r1 = w @ r2" "w \<noteq> []" "\<forall>x\<in>set w. in_cls Space x"
     "rmatch ?D (Some (last w)) r2 = Some m2" "m1 = length w + m2"
    by blast
  from rmatch_lits_iff[THEN iffD1, OF h2(4)]
  obtain d r3 m3 where h3: "r2 = d @ r3" "ci_eq d ''DATASET''"
     "rmatch ?T (last_opt (Some (last w)) d) r3 = Some m3" "m2 = length d + m3"
    by blast
  have ow: "o' \<noteq> []" "is_word (hd o')"
    using ci_eq_words[OF h1(2) _ OPEN_words] by simp_all
  have dw: "d \<noteq> []" "is_word (last d)"
    using ci_eq_words[OF h3(2) _ DATASET_words] by simp_all
  have p: "last_opt (Some (last w)) d = Some (last d)" using dw(1) by (simp add: last_opt_def)
  from h3(3) p have b3: "at_boundary (Some (last d)) r3"
    and m3: "rmatch [Star (NotLit (CHR ''.'')), Lit (CHR ''.'')] (Some (last d)) r3 = Some m3"
    by (simp_all split: if_splits)
  from rmatch_body_iff[THEN iffD1, OF m3]
  obtain body b where h4: "r3 = body @ [CHR ''.''] @ b" "CHR ''.'' \<notin> set body" "m3 = length body + 1"
    by blast
  have "word_end r3" using b3 dw(2) by (simp add: at_boundary_after_word)
  then have we: "word_end (body @ [CHR ''.''])"
    using h4(1) word_end_append[of "body @ [CHR ''.'']" b] by simp
  have "s \<noteq> []" "is_word (hd s)" using h1(1) ow by simp_all
  then have nw: "\<not> is_word_opt prev" using b0 by (simp add: at_boundary_word)
  have ws: "whitespace w" using h2(2,3) by (simp add: whitespace_def)
  have "s = o' @ w @ d @ body @ [CHR ''.''] @ b" using h1(1) h2(1) h3(1) h4(1) by simp
  moreover have "n = length o' + length w + length d + length body + 1"
    using h1(4) h2(5) h3(4) h4(3) by simp
  ultimately show ?R using nw h1(2) ws h3(2) we h4(2) by blast
next
  let ?T = "[Bnd, Star (NotLit (CHR ''.'')), Lit (CHR ''.'')]"
  let ?D = "lits ''DATASET'' @ ?T"
  assume ?R
  then obtain o' w d body b where nw: "\<not> is_word_opt prev"
    and h: "s = o' @ w @ d @ body @ [CHR ''.''] @ b" "ci_eq o' ''OPEN''" "whitespace w"
      "ci_eq d ''DATASET''" "word_end (body @ [CHR ''.''])" "CHR ''.'' \<notin> set body"
      "n = length o' + length w + length d + length body + 1"
    by blast
  have ow: "o' \<noteq> []" "is_word (hd o')"
    using ci_eq_words[OF h(2) _ OPEN_words] by simp_all
  have dw: "d \<noteq> []" "is_word (last d)"
    using ci_eq_words[OF h(4) _ DATASET_words] by simp_all
  have "rmatch [Star (NotLit (CHR ''.'')), Lit (CHR ''.'')] (Some (last d)) (body @ [CHR ''.''] @ b)
          = Some (length body + 1)"
    using h(6) by (subst rmatch_body_iff) blast
  moreover have "at_boundary (Some (last d)) (body @ [CHR ''.''] @ b)"
    using dw(2) h(5) word_end_append[of "body @ [CHR ''.'']" b] by (simp add: at_boundary_after_word)
  ultimately have t: "rmatch ?T (Some (last d)) (body @ [CHR ''.''] @ b) = Some (length body + 1)"
    by simp
  have p: "last_opt (Some (last w)) d = Some (last d)" using dw(1) by (simp add: last_opt_def)
  have t': "rmatch ?T (last_opt (Some (last w)) d) (body @ [CHR ''.''] @ b) = Some (length body + 1)"
    using t p by (simp only:)
  have d: "rmatch ?D (Some (last w)) (d @ body @ [CHR ''.''] @ b) = Some (length d + (length body + 1))"
    using h(4) t' by (rule rmatch_litsI)
  have w: "w \<noteq> []" "\<forall>x\<in>set w. in_cls Space x" using h(3) by (simp_all add: whitespace_def)
  have st: "stops Space ?D" by (rule stops_space_lits) (simp_all add: is_word_def)
  have "rmatch (Plus Space # ?D) (last_opt prev o') (w @ d @ body @ [CHR ''.''] @ b)
      = Some (length w + (length d + (length body + 1)))"
    using st w d by (rule plus_detI)
  with h(2) have "rmatch (lits ''OPEN'' @ Plus Space # ?D) prev (o' @ w @ d @ body @ [CHR ''.''] @ b)
      = Some (length o' + (length w + (length d + (length body + 1))))"
    by (rule rmatch_litsI)
  then have "rmatch (lits ''OPEN'' @ Plus Space # ?D) prev s
      = Some (length o' + (length w + (length d + (length body + 1))))"
    using h(1) by (simp only:)
  moreover have "at_boundary prev s" using h(1) ow nw by (simp add: at_boundary_word)
  ultimately show ?L using h(7) by (simp add: STMT_RE_shape)
qed

lemma rmatch_STMT_bounds:
  assumes "rmatch STMT_RE prev s = Some n"
  shows "0 < n" "n \<le> length s"
  using assms unfolding rmatch_STMT_iff by auto

lemma stmt_span_bounds:
  assumes "stmt_span t s e"
  shows "s < e" "e \<le> length t" "t ! (e - 1) = CHR ''.''"
proof -
  from assms obtain a o' w d body b where h: "t = a @ o' @ w @ d @ body @ [CHR ''.''] @ b"
    "s = length a" "e = length t - length b"
    unfolding stmt_span_def by blast
  show "s < e" using h by simp
  show "e \<le> length t" using h by simp
  have "e - 1 = length (a @ o' @ w @ d @ body)" using h by simp
  then show "t ! (e - 1) = CHR ''.''"
    using h(1) nth_append_length[of "a @ o' @ w @ d @ body" "CHR ''.''" b] by simp
qed

lemma stmt_span_rmatch:
  "stmt_span (pre @ s) (length pre) e \<longleftrightarrow>
     (\<exists>n. rmatch STMT_RE (last_opt None pre) s = Some n \<and> e = length pre + n)"
  (is "?L = ?R")
proof
  assume ?L
  then obtain a o' w d body b where h: "pre @ s = a @ o' @ w @ d @ body @ [CHR ''.''] @ b"
    "length pre = length a" "e = length (pre @ s) - length b"
    "word_start a" "ci_eq o' ''OPEN''" "whitespace w" "ci_eq d ''DATASET''"
    "word_end (body @ [CHR ''.''])" "CHR ''.'' \<notin> set body"
    unfolding stmt_span_def by blast
  from h(1,2) have a: "a = pre" and s: "s = o' @ w @ d @ body @ [CHR ''.''] @ b" by simp_all
  have "\<not> is_word_opt (last_opt None pre)" using h(4) a by (simp add: word_start_last_opt)
  then have "rmatch STMT_RE (last_opt None pre) s
      = Some (length o' + length w + length d + length body + 1)"
    unfolding rmatch_STMT_iff using s h(5-9) by blast
  moreover have "e = length pre + (length o' + length w + length d + length body + 1)"
    using h(3) s by simp
  ultimately show ?R by blast
next
  assume ?R
  then obtain n where n: "rmatch STMT_RE (last_opt None pre) s = Some n" "e = length pre + n"
    by blast
  from n(1) obtain o' w d body b where nw: "\<not> is_word_opt (last_opt None pre)"
    and h: "s = o' @ w @ d @ body @ [CHR ''.''] @ b" "ci_eq o' ''OPEN''" "whitespace w"
      "ci_eq d ''DATASET''" "word_end (body @ [CHR ''.''])" "CHR ''.'' \<notin> set body"
      "n = length o' + length w + length d + length body + 1"
    unfolding rmatch_STMT_iff by blast
  have "pre @ s = pre @ o' @ w @ d @ body @ [CHR ''.''] @ b" using h(1) by simp
  moreover have "e = length (pre @ s) - length b" using n(2) h(1,7) by simp
  moreover have "word_start pre" using nw by (simp add: word_start_last_opt)
  ultimately show ?L unfolding stmt_span_def using h(2-6) by blast
qed

lemma spans_ok_step:
  assumes "\<forall>e. \<not> stmt_span t p e" "spans_ok t (Suc p) r"
  shows "spans_ok t p r"
proof (cases r)
  case Nil
  have "\<not> stmt_span t s e" if "p \<le> s" for s e
  proof (cases "s = p")
    case True then show ?thesis using assms(1) by simp
  next
    case False
    then have "Suc p \<le> s" using that by simp
    then show ?thesis using assms(2) Nil by simp
  qed
  then show ?thesis using Nil by simp
next
  case (Cons m r')
  obtain s e where m: "m = (s, e)" by (cases m)
  have h: "Suc p \<le> s" "stmt_span t s e" "\<forall>i e'. Suc p \<le> i \<and> i < s \<longrightarrow> \<not> stmt_span t i e'"
    "spans_ok t e r'"
    using assms(2) Cons m by simp_all
  have "\<not> stmt_span t i e'" if "p \<le> i" "i < s" for i e'
  proof (cases "i = p")
    case True then show ?thesis using assms(1) by simp
  next
    case False
    then have "Suc p \<le> i" using that by simp
    then show ?thesis using h(3) that by simp
  qed
  then show ?thesis using h Cons m by simp
qed

lemma finditer_from_spans:
  "skip \<le> length s \<Longrightarrow>
   spans_ok (pre @ s) (length pre + skip)
     (finditer_from STMT_RE (last_opt None pre) s (length pre) skip)"
proof (induction s arbitrary: pre skip)
  case Nil
  have "rmatch STMT_RE (last_opt None pre) [] = None"
  proof (cases "rmatch STMT_RE (last_opt None pre) []")
    case (Some n)
    then show ?thesis using rmatch_STMT_bounds[OF Some] by simp
  qed simp
  moreover have "\<not> stmt_span pre s e" if "length pre \<le> s" for s e
    using stmt_span_bounds(1,2)[of pre s e] that by auto
  ultimately show ?case using Nil by simp
next
  case (Cons x xs)
  have lo: "last_opt None (pre @ [x]) = Some x" by (simp add: last_opt_def)
  have ih: "spans_ok (pre @ x # xs) (Suc (length pre) + k)
     (finditer_from STMT_RE (Some x) xs (Suc (length pre)) k)" if "k \<le> length xs" for k
    using Cons.IH[of k "pre @ [x]"] that lo by simp
  show ?case
  proof (cases skip)
    case (Suc k)
    then show ?thesis using ih[of k] Cons.prems by simp
  next
    case 0
    show ?thesis
    proof (cases "rmatch STMT_RE (last_opt None pre) (x # xs)")
      case None
      have "\<not> stmt_span (pre @ x # xs) (length pre) e" for e
      proof
        assume "stmt_span (pre @ x # xs) (length pre) e"
        from stmt_span_rmatch[THEN iffD1, OF this] None show False by (simp only: option.distinct ex_simps simp_thms)
      qed
      then have "\<forall>e. \<not> stmt_span (pre @ x # xs) (length pre) e" by blast
      then have "spans_ok (pre @ x # xs) (length pre) (finditer_from STMT_RE (Some x) xs (Suc (length pre)) 0)"
        using ih[of 0] by (intro spans_ok_step[of _ "length pre"]) simp_all
      then show ?thesis using 0 None by simp
    next
      case (Some n)
      have n: "0 < n" "n \<le> length (x # xs)" using rmatch_STMT_bounds[OF Some] by simp_all
      have "\<exists>n'. rmatch STMT_RE (last_opt None pre) (x # xs) = Some n' \<and> length pre + n = length pre + n'"
        using Some by blast
      then have "stmt_span (pre @ x # xs) (length pre) (length pre + n)"
        by (rule stmt_span_rmatch[THEN iffD2])
      moreover have "spans_ok (pre @ x # xs) (length pre + n)
         (finditer_from STMT_RE (Some x) xs (Suc (length pre)) (n - 1))"
        using ih[of "n - 1"] n by simp
      ultimately show ?thesis using 0 Some by auto
    qed
  qed
qed

lemma spans_ok_sorted:
  "spans_ok t pos spans \<Longrightarrow>
   sorted_wrt (\<lambda>a b. snd a \<le> fst b) spans \<and> (\<forall>m\<in>set spans. pos \<le> fst m \<and> stmt_span t (fst m) (snd m))"
proof (induction spans arbitrary: pos)
  case Nil
  show ?case by simp
next
  case (Cons m r)
  obtain s e where m: "m = (s, e)" by (cases m)
  have h: "pos \<le> s" "stmt_span t s e" "spans_ok t e r" using Cons.prems m by simp_all
  from Cons.IH[OF h(3)] have ih: "sorted_wrt (\<lambda>a b. snd a \<le> fst b) r"
    "\<forall>m\<in>set r. e \<le> fst m \<and> stmt_span t (fst m) (snd m)" by simp_all
  have "s < e" using stmt_span_bounds(1)[OF h(2)] .
  then show ?case using h ih m by auto
qed

lemma finditer_spans_ok: "spans_ok t 0 (finditer STMT_RE t)"
  using finditer_from_spans[of 0 t "[]"] by (simp add: finditer_def last_opt_def)

section \<open>The clause patterns\<close>

lemma search_from_None_iff:
  "search_from p prev s off = None \<longleftrightarrow>
     (\<forall>a b. s = a @ b \<longrightarrow> rmatch p (last_opt prev a) b = None)"
proof (induction s arbitrary: prev off)
  case Nil
  show ?case by (auto simp: last_opt_def split: option.splits)
next
  case (Cons x xs)
  have l: "last_opt prev (x # a) = last_opt (Some x) a" for a by (simp add: last_opt_def)
  have "(\<forall>a b. x # xs = a @ b \<longrightarrow> rmatch p (last_opt prev a) b = None) \<longleftrightarrow>
        (rmatch p prev (x # xs) = None \<and> (\<forall>a b. xs = a @ b \<longrightarrow> rmatch p (last_opt (Some x) a) b = None))"
    (is "?A = (?B \<and> ?C)")
  proof
    assume a: ?A
    have ?B using a[rule_format, of "[]" "x # xs"] by (simp add: last_opt_def)
    moreover have ?C
    proof (intro allI impI)
      fix a' b assume "xs = a' @ b"
      then have "x # xs = (x # a') @ b" by simp
      from a[rule_format, OF this] show "rmatch p (last_opt (Some x) a') b = None" by (simp add: l)
    qed
    ultimately show "?B \<and> ?C" ..
  next
    assume bc: "?B \<and> ?C"
    show ?A
    proof (intro allI impI)
      fix a b assume e: "x # xs = a @ b"
      show "rmatch p (last_opt prev a) b = None"
      proof (cases a)
        case Nil
        then show ?thesis using e bc by (simp add: last_opt_def)
      next
        case (Cons y a')
        then have "xs = a' @ b" "y = x" using e by simp_all
        then show ?thesis using bc Cons by (simp add: l)
      qed
    qed
  qed
  then show ?case using Cons.IH[of "Some x" "Suc off"] by (simp split: option.splits)
qed

lemma search_Some_iff:
  "search p s \<noteq> None \<longleftrightarrow> (\<exists>a b n. s = a @ b \<and> rmatch p (last_opt None a) b = Some n)"
  unfolding search_def using search_from_None_iff[of p None s 0] by (metis not_Some_eq)

lemma accepts_Bnd: "accepts (Bnd # r) prev s \<longleftrightarrow> at_boundary prev s \<and> accepts r prev s"
  by (simp add: accepts_def)

lemma accepts_end_Bnd: "accepts [Bnd] prev s \<longleftrightarrow> at_boundary prev s"
  by (simp add: accepts_def)

lemma accepts_lits:
  "accepts (lits w @ r) prev s \<longleftrightarrow>
     (\<exists>o' rest. s = o' @ rest \<and> ci_eq o' w \<and> accepts r (last_opt prev o') rest)"
  unfolding accepts_def rmatch_lits_iff by blast

lemma accepts_plus:
  assumes "stops c k"
  shows "accepts (Plus c # k) prev s \<longleftrightarrow>
     (\<exists>w rest. s = w @ rest \<and> w \<noteq> [] \<and> (\<forall>x\<in>set w. in_cls c x) \<and>
        accepts k (Some (last w)) rest)"
  unfolding accepts_def plus_det_iff[OF assms] by blast

lemma accepts_Alt:
  "accepts (Alt a b # r) prev s \<longleftrightarrow> accepts (a @ r) prev s \<or> accepts (b @ r) prev s"
  by (auto simp: accepts_def split: option.splits)

lemma rmatch_star_end: "\<exists>n. rmatch [Star c] prev s = Some n"
  by (induction s arbitrary: prev) (auto split: option.splits)

lemma accepts_plus_end:
  "accepts [Plus c] prev s \<longleftrightarrow> (\<exists>x xs. s = x # xs \<and> in_cls c x)"
proof (cases s)
  case Nil
  then show ?thesis by (simp add: accepts_def)
next
  case (Cons x xs)
  obtain n where "rmatch [Star c] (Some x) xs = Some n" using rmatch_star_end by blast
  then show ?thesis using Cons by (simp add: accepts_def)
qed

lemma stops_Alt: "stops c (a @ r) \<Longrightarrow> stops c (b @ r) \<Longrightarrow> stops c (Alt a b # r)"
  by (simp add: stops_def)

lemma stops_plus: "\<forall>x. in_cls c x \<longrightarrow> \<not> in_cls c' x \<Longrightarrow> stops c (Plus c' # r)"
  by (simp add: stops_def)

lemma accepts_space_plus:
  assumes "stops Space k"
  shows "accepts (Plus Space # k) prev s \<longleftrightarrow>
     (\<exists>w rest. s = w @ rest \<and> whitespace w \<and> accepts k (Some (last w)) rest)"
  unfolding accepts_plus[OF assms] whitespace_def by auto

lemma accepts_word:
  assumes "w \<noteq> []" "\<forall>c\<in>set w. is_word c"
  shows "accepts (lits w @ r) prev s \<longleftrightarrow>
     (\<exists>o' rest. s = o' @ rest \<and> ci_eq o' w \<and> accepts r (Some (last o')) rest)"
proof -
  have "last_opt prev o' = Some (last o')" if "ci_eq o' w" for o'
    using ci_eq_words(1)[OF that assms] by (simp add: last_opt_def)
  then show ?thesis unfolding accepts_lits by metis
qed

lemma accepts_MODE_tail:
  "accepts (Plus Space # lits ''MODE'' @ [Bnd]) prev s \<longleftrightarrow>
     (\<exists>w2 m b. s = w2 @ m @ b \<and> whitespace w2 \<and> ci_eq m ''MODE'' \<and> word_end b)"
proof -
  have w: "''MODE'' \<noteq> []" "\<forall>c\<in>set ''MODE''. is_word c" by (simp_all add: is_word_def)
  have st: "stops Space (lits ''MODE'' @ [Bnd])"
    by (rule stops_space_lits) (simp_all add: is_word_def)
  have b: "at_boundary (Some (last m)) b = word_end b" if "ci_eq m ''MODE''" for m b
    using ci_eq_words(3)[OF that w] by (simp add: at_boundary_after_word)
  show ?thesis
    unfolding accepts_space_plus[OF st] accepts_word[OF w] accepts_end_Bnd
    using b by (metis (no_types, opaque_lifting))
qed

lemma accepts_lits_MODE_tail:
  assumes "K \<noteq> []" "\<forall>c\<in>set K. is_word c"
  shows "accepts (lits K @ Plus Space # lits ''MODE'' @ [Bnd]) prev s \<longleftrightarrow>
     (\<exists>k w2 m b. s = k @ w2 @ m @ b \<and> ci_eq k K \<and> whitespace w2 \<and>
        ci_eq m ''MODE'' \<and> word_end b)"
  unfolding accepts_word[OF assms] accepts_MODE_tail by blast

lemma TEXT_words: "''TEXT'' \<noteq> []" "\<forall>c\<in>set ''TEXT''. is_word c"
  by (simp_all add: is_word_def)

lemma BINARY_words: "''BINARY'' \<noteq> []" "\<forall>c\<in>set ''BINARY''. is_word c"
  by (simp_all add: is_word_def)

lemma IN_words: "''IN'' \<noteq> []" "\<forall>c\<in>set ''IN''. is_word c"
  by (simp_all add: is_word_def)

lemma ENCODING_words: "''ENCODING'' \<noteq> []" "\<forall>c\<in>set ''ENCODING''. is_word c"
  by (simp_all add: is_word_def)

lemma accepts_clause:
  assumes "K \<noteq> []" "\<forall>c\<in>set K. is_word c"
  shows "accepts (Plus Space # lits K @ Plus Space # lits ''MODE'' @ [Bnd]) prev s \<longleftrightarrow>
     (\<exists>w1 k w2 m b. s = w1 @ k @ w2 @ m @ b \<and> whitespace w1 \<and> ci_eq k K \<and>
        whitespace w2 \<and> ci_eq m ''MODE'' \<and> word_end b)"
proof -
  have st: "stops Space (lits K @ Plus Space # lits ''MODE'' @ [Bnd])"
    using assms by (intro stops_space_lits) (cases K, simp_all)+
  show ?thesis
    unfolding accepts_space_plus[OF st] accepts_lits_MODE_tail[OF assms] by blast
qed

lemma accepts_plus_Alt:
  assumes "stops Space (a @ r)" "stops Space (b @ r)"
  shows "accepts (Plus Space # Alt a b # r) prev s \<longleftrightarrow>
     accepts (Plus Space # a @ r) prev s \<or> accepts (Plus Space # b @ r) prev s"
  unfolding accepts_space_plus[OF stops_Alt[OF assms]] accepts_space_plus[OF assms(1)]
    accepts_space_plus[OF assms(2)] accepts_Alt
  by blast

lemma accepts_either_clause:
  "accepts (Plus Space # Alt (lits ''TEXT'') (lits ''BINARY'') # Plus Space # lits ''MODE'' @ [Bnd]) prev s \<longleftrightarrow>
     (\<exists>w1 k w2 m b. s = w1 @ k @ w2 @ m @ b \<and> whitespace w1 \<and>
        (ci_eq k ''TEXT'' \<or> ci_eq k ''BINARY'') \<and>
        whitespace w2 \<and> ci_eq m ''MODE'' \<and> word_end b)"
  (is "?L = ?R")
proof -
  let ?M = "Plus Space # lits ''MODE'' @ [Bnd]"
  have t: "stops Space (lits ''TEXT'' @ ?M)"
    by (rule stops_space_lits) (simp_all add: is_word_def)
  have b: "stops Space (lits ''BINARY'' @ ?M)"
    by (rule stops_space_lits) (simp_all add: is_word_def)
  have "?L \<longleftrightarrow> accepts (Plus Space # lits ''TEXT'' @ ?M) prev s \<or>
      accepts (Plus Space # lits ''BINARY'' @ ?M) prev s"
    by (rule accepts_plus_Alt[OF t b])
  also have "\<dots> \<longleftrightarrow>
     (\<exists>w1 k w2 m b. s = w1 @ k @ w2 @ m @ b \<and> whitespace w1 \<and> ci_eq k ''TEXT'' \<and>
        whitespace w2 \<and> ci_eq m ''MODE'' \<and> word_end b) \<or>
     (\<exists>w1 k w2 m b. s = w1 @ k @ w2 @ m @ b \<and> whitespace w1 \<and> ci_eq k ''BINARY'' \<and>
        whitespace w2 \<and> ci_eq m ''MODE'' \<and> word_end b)"
    by (simp only: accepts_clause[OF TEXT_words] accepts_clause[OF BINARY_words])
  also have "\<dots> \<longleftrightarrow> ?R"
  proof
    assume "(\<exists>w1 k w2 m b. s = w1 @ k @ w2 @ m @ b \<and> whitespace w1 \<and> ci_eq k ''TEXT'' \<and>
        whitespace w2 \<and> ci_eq m ''MODE'' \<and> word_end b) \<or>
     (\<exists>w1 k w2 m b. s = w1 @ k @ w2 @ m @ b \<and> whitespace w1 \<and> ci_eq k ''BINARY'' \<and>
        whitespace w2 \<and> ci_eq m ''MODE'' \<and> word_end b)"
    then show ?R
    proof
      assume "\<exists>w1 k w2 m b. s = w1 @ k @ w2 @ m @ b \<and> whitespace w1 \<and> ci_eq k ''TEXT'' \<and>
        whitespace w2 \<and> ci_eq m ''MODE'' \<and> word_end b"
      then obtain w1 k w2 m b where "s = w1 @ k @ w2 @ m @ b" "whitespace w1" "ci_eq k ''TEXT''"
        "whitespace w2" "ci_eq m ''MODE''" "word_end b" by blast
      then show ?R by - (rule exI[of _ w1], rule exI[of _ k], rule exI[of _ w2], rule exI[of _ m], rule exI[of _ b], simp)
    next
      assume "\<exists>w1 k w2 m b. s = w1 @ k @ w2 @ m @ b \<and> whitespace w1 \<and> ci_eq k ''BINARY'' \<and>
        whitespace w2 \<and> ci_eq m ''MODE'' \<and> word_end b"
      then obtain w1 k w2 m b where "s = w1 @ k @ w2 @ m @ b" "whitespace w1" "ci_eq k ''BINARY''"
        "whitespace w2" "ci_eq m ''MODE''" "word_end b" by blast
      then show ?R by - (rule exI[of _ w1], rule exI[of _ k], rule exI[of _ w2], rule exI[of _ m], rule exI[of _ b], simp)
    qed
  next
    assume ?R
    then obtain w1 k w2 m b where h: "s = w1 @ k @ w2 @ m @ b" "whitespace w1"
        "ci_eq k ''TEXT'' \<or> ci_eq k ''BINARY''"
        "whitespace w2" "ci_eq m ''MODE''" "word_end b" by blast
    from h(3) show "(\<exists>w1 k w2 m b. s = w1 @ k @ w2 @ m @ b \<and> whitespace w1 \<and> ci_eq k ''TEXT'' \<and>
        whitespace w2 \<and> ci_eq m ''MODE'' \<and> word_end b) \<or>
     (\<exists>w1 k w2 m b. s = w1 @ k @ w2 @ m @ b \<and> whitespace w1 \<and> ci_eq k ''BINARY'' \<and>
        whitespace w2 \<and> ci_eq m ''MODE'' \<and> word_end b)"
    proof
      assume "ci_eq k ''TEXT''"
      with h have "\<exists>w1 k w2 m b. s = w1 @ k @ w2 @ m @ b \<and> whitespace w1 \<and> ci_eq k ''TEXT'' \<and>
        whitespace w2 \<and> ci_eq m ''MODE'' \<and> word_end b"
        by - (rule exI[of _ w1], rule exI[of _ k], rule exI[of _ w2], rule exI[of _ m], rule exI[of _ b], simp)
      then show ?thesis ..
    next
      assume "ci_eq k ''BINARY''"
      with h have "\<exists>w1 k w2 m b. s = w1 @ k @ w2 @ m @ b \<and> whitespace w1 \<and> ci_eq k ''BINARY'' \<and>
        whitespace w2 \<and> ci_eq m ''MODE'' \<and> word_end b"
        by - (rule exI[of _ w1], rule exI[of _ k], rule exI[of _ w2], rule exI[of _ m], rule exI[of _ b], simp)
      then show ?thesis ..
    qed
  qed
  finally show ?thesis .
qed

lemma accepts_token:
  assumes "w \<noteq> []" "\<forall>c\<in>set w. is_word c"
  shows "accepts (Bnd # lits w @ r) prev s \<longleftrightarrow>
     (\<not> is_word_opt prev \<and>
      (\<exists>o' rest. s = o' @ rest \<and> ci_eq o' w \<and> accepts r (Some (last o')) rest))"
proof -
  have "at_boundary prev (o' @ rest) = (\<not> is_word_opt prev)" if "ci_eq o' w" for o' rest
    using ci_eq_words(1,2)[OF that assms] by (simp add: at_boundary_word)
  then show ?thesis unfolding accepts_Bnd accepts_word[OF assms] by blast
qed

lemma MODE_RE_shape:
  "MODE_RE = Bnd # lits ''IN'' @ Plus Space # Alt (lits ''TEXT'') (lits ''BINARY'') #
     Plus Space # lits ''MODE'' @ [Bnd]"
  by (simp add: MODE_RE_def)

lemma TEXT_MODE_RE_shape:
  "TEXT_MODE_RE = Bnd # lits ''IN'' @ Plus Space # lits ''TEXT'' @ Plus Space # lits ''MODE'' @ [Bnd]"
  by (simp add: TEXT_MODE_RE_def)

lemma ENCODING_RE_shape:
  "ENCODING_RE = Bnd # lits ''ENCODING'' @ [Bnd, Plus Space, Plus NonSpace]"
  by (simp add: ENCODING_RE_def)

lemma accepts_MODE_RE:
  "accepts MODE_RE prev s \<longleftrightarrow>
     (\<not> is_word_opt prev \<and>
      (\<exists>i w1 k w2 m b. s = i @ w1 @ k @ w2 @ m @ b \<and> ci_eq i ''IN'' \<and> whitespace w1 \<and>
        (ci_eq k ''TEXT'' \<or> ci_eq k ''BINARY'') \<and>
        whitespace w2 \<and> ci_eq m ''MODE'' \<and> word_end b))"
  unfolding MODE_RE_shape accepts_token[OF IN_words] accepts_either_clause by blast

lemma accepts_TEXT_MODE_RE:
  "accepts TEXT_MODE_RE prev s \<longleftrightarrow>
     (\<not> is_word_opt prev \<and>
      (\<exists>i w1 k w2 m b. s = i @ w1 @ k @ w2 @ m @ b \<and> ci_eq i ''IN'' \<and> whitespace w1 \<and>
        ci_eq k ''TEXT'' \<and> whitespace w2 \<and> ci_eq m ''MODE'' \<and> word_end b))"
  unfolding TEXT_MODE_RE_shape accepts_token[OF IN_words] accepts_clause[OF TEXT_words] by blast

lemma accepts_ENCODING_tail:
  assumes "is_word c"
  shows "accepts [Bnd, Plus Space, Plus NonSpace] (Some c) s \<longleftrightarrow>
     (\<exists>w v b. s = w @ v @ b \<and> whitespace w \<and> v \<noteq> [] \<and> (\<forall>c\<in>set v. \<not> is_space c))"
  (is "?L = ?R")
proof -
  have st: "stops Space [Plus NonSpace]" by (rule stops_plus) simp
  have a: "accepts [Plus Space, Plus NonSpace] (Some c) s \<longleftrightarrow> ?R"
    (is "?A = _")
  proof
    assume ?A
    then obtain w rest where h: "s = w @ rest" "whitespace w" "accepts [Plus NonSpace] (Some (last w)) rest"
      unfolding accepts_space_plus[OF st] by blast
    from h(3) obtain x xs where x: "rest = x # xs" "\<not> is_space x"
      unfolding accepts_plus_end by auto
    have "s = w @ [x] @ xs" using h(1) x(1) by simp
    then show ?R using h(2) x(2) by - (rule exI[of _ w], rule exI[of _ "[x]"], rule exI[of _ xs], simp)
  next
    assume ?R
    then obtain w v b where h: "s = w @ v @ b" "whitespace w" "v \<noteq> []" "\<forall>c\<in>set v. \<not> is_space c"
      by blast
    then obtain x v' where v: "v = x # v'" by (cases v) auto
    have "accepts [Plus NonSpace] (Some (last w)) (v @ b)"
      unfolding accepts_plus_end using v h(4) by simp
    then show ?A unfolding accepts_space_plus[OF st] using h(1,2) by blast
  qed
  have "at_boundary (Some c) s" if ?R
  proof -
    from that obtain w v b where h: "s = w @ v @ b" "whitespace w" by blast
    then obtain x w' where "w = x # w'" "is_space x" by (cases w) (auto simp: whitespace_def)
    then show ?thesis using h(1) assms
      by (simp add: at_boundary_after_word word_end_def space_not_word)
  qed
  then show ?thesis unfolding accepts_Bnd a by blast
qed

lemma accepts_ENCODING_RE:
  "accepts ENCODING_RE prev s \<longleftrightarrow>
     (\<not> is_word_opt prev \<and>
      (\<exists>k w v b. s = k @ w @ v @ b \<and> ci_eq k ''ENCODING'' \<and> whitespace w \<and>
         v \<noteq> [] \<and> (\<forall>c\<in>set v. \<not> is_space c)))"
  (is "?L = ?R")
proof
  assume ?L
  then have nw: "\<not> is_word_opt prev"
    and "\<exists>o' rest. s = o' @ rest \<and> ci_eq o' ''ENCODING'' \<and>
          accepts [Bnd, Plus Space, Plus NonSpace] (Some (last o')) rest"
    unfolding ENCODING_RE_shape accepts_token[OF ENCODING_words] by simp_all
  then obtain k rest where h: "s = k @ rest" "ci_eq k ''ENCODING''"
     "accepts [Bnd, Plus Space, Plus NonSpace] (Some (last k)) rest" by blast
  have "is_word (last k)" using ci_eq_words(3)[OF h(2) ENCODING_words] .
  from accepts_ENCODING_tail[OF this, THEN iffD1, OF h(3)]
  obtain w v b where t: "rest = w @ v @ b" "whitespace w" "v \<noteq> []" "\<forall>c\<in>set v. \<not> is_space c"
    by blast
  have "s = k @ w @ v @ b" using h(1) t(1) by simp
  then have "\<exists>k w v b. s = k @ w @ v @ b \<and> ci_eq k ''ENCODING'' \<and> whitespace w \<and>
         v \<noteq> [] \<and> (\<forall>c\<in>set v. \<not> is_space c)"
    using h(2) t(2,3,4) by - (rule exI[of _ k], rule exI[of _ w], rule exI[of _ v], rule exI[of _ b], simp)
  with nw show ?R ..
next
  assume ?R
  then obtain k w v b where nw: "\<not> is_word_opt prev"
    and h: "s = k @ w @ v @ b" "ci_eq k ''ENCODING''" "whitespace w"
         "v \<noteq> []" "\<forall>c\<in>set v. \<not> is_space c" by blast
  have "is_word (last k)" using ci_eq_words(3)[OF h(2) ENCODING_words] .
  from accepts_ENCODING_tail[OF this, of "w @ v @ b"] h(3,4,5)
  have "accepts [Bnd, Plus Space, Plus NonSpace] (Some (last k)) (w @ v @ b)" by blast
  with h(1,2) have "\<exists>o' rest. s = o' @ rest \<and> ci_eq o' ''ENCODING'' \<and>
          accepts [Bnd, Plus Space, Plus NonSpace] (Some (last o')) rest"
    by - (rule exI[of _ k], rule exI[of _ "w @ v @ b"], simp)
  with nw show ?L unfolding ENCODING_RE_shape accepts_token[OF ENCODING_words] ..
qed

lemma search_accepts:
  "search p s \<noteq> None \<longleftrightarrow> (\<exists>a b. s = a @ b \<and> accepts p (last_opt None a) b)"
  unfolding search_Some_iff accepts_def by blast

lemma search_token:
  assumes "\<And>prev s. accepts p prev s \<longleftrightarrow> \<not> is_word_opt prev \<and> Q s"
  shows "search p stmt \<noteq> None \<longleftrightarrow> (\<exists>a b. stmt = a @ b \<and> word_start a \<and> Q b)"
  unfolding search_accepts assms word_start_last_opt by simp

lemma has_mode_iff: "search MODE_RE stmt \<noteq> None \<longleftrightarrow> spec_has_mode stmt"
  (is "?L = ?R")
proof -
  have s: "?L \<longleftrightarrow> (\<exists>a b'. stmt = a @ b' \<and> word_start a \<and>
      (\<exists>i w1 k w2 m b. b' = i @ w1 @ k @ w2 @ m @ b \<and> ci_eq i ''IN'' \<and> whitespace w1 \<and> (ci_eq k ''TEXT'' \<or> ci_eq k ''BINARY'') \<and> whitespace w2 \<and> ci_eq m ''MODE'' \<and> word_end b))"
    by (rule search_token) (rule accepts_MODE_RE)
  show ?thesis
  proof
    assume ?L
    with s obtain a b' i w1 k w2 m b where h: "stmt = a @ b'" "word_start a" "b' = i @ w1 @ k @ w2 @ m @ b"
      "ci_eq i ''IN''" "whitespace w1" "(ci_eq k ''TEXT'' \<or> ci_eq k ''BINARY'')" "whitespace w2" "ci_eq m ''MODE''" "word_end b"
      by blast
    have "stmt = a @ i @ w1 @ k @ w2 @ m @ b" using h(1,3) by simp
    then show ?R unfolding spec_has_mode_def using h(2) h(4-)
      by - (rule exI[of _ a], rule exI[of _ i], rule exI[of _ w1], rule exI[of _ k], rule exI[of _ w2], rule exI[of _ m], rule exI[of _ b], simp)
  next
    assume ?R
    then obtain a i w1 k w2 m b where h: "stmt = a @ i @ w1 @ k @ w2 @ m @ b" "word_start a"
      "ci_eq i ''IN''" "whitespace w1" "(ci_eq k ''TEXT'' \<or> ci_eq k ''BINARY'')" "whitespace w2" "ci_eq m ''MODE''" "word_end b"
      unfolding spec_has_mode_def by blast
    have "\<exists>i' w1' k' w2' m' b'. i @ w1 @ k @ w2 @ m @ b = i' @ w1' @ k' @ w2' @ m' @ b' \<and> ci_eq i' ''IN'' \<and> whitespace w1' \<and> (ci_eq k' ''TEXT'' \<or> ci_eq k' ''BINARY'') \<and> whitespace w2' \<and> ci_eq m' ''MODE'' \<and> word_end b'"
      using h(3-) by blast
    with h(1,2) have "\<exists>a b'. stmt = a @ b' \<and> word_start a \<and>
      (\<exists>i w1 k w2 m b. b' = i @ w1 @ k @ w2 @ m @ b \<and> ci_eq i ''IN'' \<and> whitespace w1 \<and> (ci_eq k ''TEXT'' \<or> ci_eq k ''BINARY'') \<and> whitespace w2 \<and> ci_eq m ''MODE'' \<and> word_end b)"
      by - (rule exI[of _ a], rule exI[of _ "i @ w1 @ k @ w2 @ m @ b"], simp)
    with s show ?L by simp
  qed
qed

lemma is_text_mode_iff: "search TEXT_MODE_RE stmt \<noteq> None \<longleftrightarrow> spec_is_text_mode stmt"
  (is "?L = ?R")
proof -
  have s: "?L \<longleftrightarrow> (\<exists>a b'. stmt = a @ b' \<and> word_start a \<and>
      (\<exists>i w1 k w2 m b. b' = i @ w1 @ k @ w2 @ m @ b \<and> ci_eq i ''IN'' \<and> whitespace w1 \<and> ci_eq k ''TEXT'' \<and> whitespace w2 \<and> ci_eq m ''MODE'' \<and> word_end b))"
    by (rule search_token) (rule accepts_TEXT_MODE_RE)
  show ?thesis
  proof
    assume ?L
    with s obtain a b' i w1 k w2 m b where h: "stmt = a @ b'" "word_start a" "b' = i @ w1 @ k @ w2 @ m @ b"
      "ci_eq i ''IN''" "whitespace w1" "ci_eq k ''TEXT''" "whitespace w2" "ci_eq m ''MODE''" "word_end b"
      by blast
    have "stmt = a @ i @ w1 @ k @ w2 @ m @ b" using h(1,3) by simp
    then show ?R unfolding spec_is_text_mode_def using h(2) h(4-)
      by - (rule exI[of _ a], rule exI[of _ i], rule exI[of _ w1], rule exI[of _ k], rule exI[of _ w2], rule exI[of _ m], rule exI[of _ b], simp)
  next
    assume ?R
    then obtain a i w1 k w2 m b where h: "stmt = a @ i @ w1 @ k @ w2 @ m @ b" "word_start a"
      "ci_eq i ''IN''" "whitespace w1" "ci_eq k ''TEXT''" "whitespace w2" "ci_eq m ''MODE''" "word_end b"
      unfolding spec_is_text_mode_def by blast
    have "\<exists>i' w1' k' w2' m' b'. i @ w1 @ k @ w2 @ m @ b = i' @ w1' @ k' @ w2' @ m' @ b' \<and> ci_eq i' ''IN'' \<and> whitespace w1' \<and> ci_eq k' ''TEXT'' \<and> whitespace w2' \<and> ci_eq m' ''MODE'' \<and> word_end b'"
      using h(3-) by blast
    with h(1,2) have "\<exists>a b'. stmt = a @ b' \<and> word_start a \<and>
      (\<exists>i w1 k w2 m b. b' = i @ w1 @ k @ w2 @ m @ b \<and> ci_eq i ''IN'' \<and> whitespace w1 \<and> ci_eq k ''TEXT'' \<and> whitespace w2 \<and> ci_eq m ''MODE'' \<and> word_end b)"
      by - (rule exI[of _ a], rule exI[of _ "i @ w1 @ k @ w2 @ m @ b"], simp)
    with s show ?L by simp
  qed
qed

lemma has_encoding_iff: "search ENCODING_RE stmt \<noteq> None \<longleftrightarrow> spec_has_encoding stmt"
  (is "?L = ?R")
proof -
  have s: "?L \<longleftrightarrow> (\<exists>a b'. stmt = a @ b' \<and> word_start a \<and>
      (\<exists>k w v b. b' = k @ w @ v @ b \<and> ci_eq k ''ENCODING'' \<and> whitespace w \<and> v \<noteq> [] \<and> (\<forall>c\<in>set v. \<not> is_space c)))"
    by (rule search_token) (rule accepts_ENCODING_RE)
  show ?thesis
  proof
    assume ?L
    with s obtain a b' k w v b where h: "stmt = a @ b'" "word_start a" "b' = k @ w @ v @ b"
      "ci_eq k ''ENCODING''" "whitespace w" "v \<noteq> []" "(\<forall>c\<in>set v. \<not> is_space c)"
      by blast
    have "stmt = a @ k @ w @ v @ b" using h(1,3) by simp
    then show ?R unfolding spec_has_encoding_def using h(2) h(4-)
      by - (rule exI[of _ a], rule exI[of _ k], rule exI[of _ w], rule exI[of _ v], rule exI[of _ b], simp)
  next
    assume ?R
    then obtain a k w v b where h: "stmt = a @ k @ w @ v @ b" "word_start a"
      "ci_eq k ''ENCODING''" "whitespace w" "v \<noteq> []" "(\<forall>c\<in>set v. \<not> is_space c)"
      unfolding spec_has_encoding_def by blast
    have "\<exists>k' w' v' b'. k @ w @ v @ b = k' @ w' @ v' @ b' \<and> ci_eq k' ''ENCODING'' \<and> whitespace w' \<and> v' \<noteq> [] \<and> (\<forall>c\<in>set v'. \<not> is_space c)"
      using h(3-) by blast
    with h(1,2) have "\<exists>a b'. stmt = a @ b' \<and> word_start a \<and>
      (\<exists>k w v b. b' = k @ w @ v @ b \<and> ci_eq k ''ENCODING'' \<and> whitespace w \<and> v \<noteq> [] \<and> (\<forall>c\<in>set v. \<not> is_space c))"
      by - (rule exI[of _ a], rule exI[of _ "k @ w @ v @ b"], simp)
    with s show ?L by simp
  qed
qed

section \<open>The loop of \<^verbatim>\<open>scan_unit\<close>\<close>

lemma scan_match_append: "scan_match u src fs m = fs @ scan_match u src [] m"
  unfolding scan_match_def Let_def by simp

lemma foldl_scan_match:
  "foldl (scan_match u src) fs ms = fs @ concat (map (scan_match u src []) ms)"
proof (induction ms arbitrary: fs)
  case Nil
  show ?case by simp
next
  case (Cons m ms)
  have "foldl (scan_match u src) fs (m # ms) = foldl (scan_match u src) (scan_match u src fs m) ms"
    by simp
  also have "\<dots> = scan_match u src fs m @ concat (map (scan_match u src []) ms)"
    by (rule Cons.IH)
  also have "\<dots> = fs @ scan_match u src [] m @ concat (map (scan_match u src []) ms)"
    using scan_match_append[of u src fs m] by simp
  finally show ?case by simp
qed

lemma scan_unit_findings:
  "rule111_findings (scan_unit u) =
     Some (concat (map (scan_match u (code_or_empty u) []) (finditer STMT_RE (code_or_empty u))))"
  unfolding scan_unit_def Let_def by (simp add: foldl_scan_match)

lemma scan_match_identity:
  assumes "f \<in> set (scan_match u src [] m)"
  shows "pgm_name f = Some (u_pgm_name u) \<and> inc_name f = Some (u_inc_name u) \<and>
     type f = Some (u_type u) \<and> name f = u_name u \<and>
     start_line f = u_start_line u \<and> end_line f = u_end_line u"
  using assms unfolding scan_match_def Let_def by (auto split: if_splits)

lemma scan_match_kinds:
  assumes "f \<in> set (scan_match u src [] m)"
  shows "(issue_type f = Some ''OpenDatasetNoMode'' \<and> severity f = Some ''warning'') \<or>
     (issue_type f = Some ''OpenDatasetTextNoEncoding'' \<and> severity f = Some ''info'')"
  using assms unfolding scan_match_def Let_def by (auto split: if_splits)

lemma example_spans: "finditer STMT_RE ''OPEN DATASET f.'' = [(0, 15)]"
  by code_simp

lemma example_findings:
  "rule111_findings (scan_unit example_unit) = Some
     [\<lparr>pgm_name = Some ''ZPROG'', inc_name = Some ''ZINC'', type = Some ''FORM'',
       name = Some ''READ_FILE'', start_line = Some 10, end_line = Some 20,
       issue_type = Some ''OpenDatasetNoMode'', severity = Some ''warning'',
       line = Some 1, message = Some ''OPEN DATASET without MODE or ENCODING.'',
       suggestion = Some ''Specify IN TEXT MODE ENCODING UTF-8 or IN BINARY MODE. OPEN DATASET without MODE or ENCODING.'',
       snippet = Some ''OPEN DATASET f.''\<rparr>]"
  by code_simp

lemma py_slice_nat: "py_slice t (int s) (int e) = take (e - s) (drop s t)"
proof -
  have "take (min e (length t) - min s (length t)) (drop (min s (length t)) t) = take (e - s) (drop s t)"
  proof (cases "s \<le> length t")
    case True
    then show ?thesis by (cases "e \<le> length t") (simp_all add: min_def)
  next
    case False
    then show ?thesis by (simp add: min_def)
  qed
  then show ?thesis
    unfolding py_slice_def Let_def by (simp add: nat_diff_distrib' min_def)
qed

lemma scan_match_policy:
  "map (\<lambda>f. (issue_type f, severity f, message f)) (scan_match u src [] m) =
     spec_policy (span_text src m)"
  unfolding scan_match_def Let_def spec_policy_def span_text_def py_slice_nat
    has_mode_iff is_text_mode_iff has_encoding_iff
  by simp

lemma stmt_span_occurrence: "stmt_span t s e \<Longrightarrow> open_dataset_dot t"
proof -
  assume "stmt_span t s e"
  then obtain a o' w d body b where h: "t = a @ o' @ w @ d @ body @ [CHR ''.''] @ b"
     "ci_eq o' ''OPEN''" "whitespace w" "ci_eq d ''DATASET''"
    unfolding stmt_span_def by blast
  have "CHR ''.'' \<in> set (body @ [CHR ''.''] @ b)" by simp
  with h show ?thesis unfolding open_dataset_dot_def
    by - (rule exI[of _ a], rule exI[of _ o'], rule exI[of _ w], rule exI[of _ d],
          rule exI[of _ "body @ [CHR ''.''] @ b"], simp)
qed

lemma no_occurrence_no_spans:
  assumes "\<not> open_dataset_dot t"
  shows "finditer STMT_RE t = []"
proof (cases "finditer STMT_RE t")
  case (Cons m r)
  obtain s e where "m = (s, e)" by (cases m)
  with Cons finditer_spans_ok[of t] have "stmt_span t s e" by simp
  with assms stmt_span_occurrence show ?thesis by blast
qed simp

lemma not_open_dataset_dot_empty: "\<not> open_dataset_dot []"
  unfolding open_dataset_dot_def using ci_eq_length[of "[]" "''OPEN''"] by auto

lemma no_span_no_spans:
  assumes "\<forall>s e. \<not> stmt_span t s e"
  shows "finditer STMT_RE t = []"
proof (cases "finditer STMT_RE t")
  case (Cons m r)
  obtain s e where "m = (s, e)" by (cases m)
  with Cons finditer_spans_ok[of t] have "stmt_span t s e" by simp
  with assms show ?thesis by blast
qed simp

text \<open>The loop of the endpoint, for any list of results built so far.\<close>

lemma foldl_scan_rule111:
  "foldl (\<lambda>results u. let res = scan_unit u
                         in if truthy (rule111_findings res) then results @ [res] else results)
           acc units
   = acc @ filter (\<lambda>res. rule111_findings res \<noteq> Some []) (map scan_unit units)"
proof (induction units arbitrary: acc)
  case Nil
  show ?case by simp
next
  case (Cons u us)
  have "truthy (rule111_findings (scan_unit u)) = (rule111_findings (scan_unit u) \<noteq> Some [])"
    by (simp add: scan_unit_findings truthy_def)
  then show ?case using Cons.IH by (simp add: Let_def)
qed

section \<open>Snippets and lines\<close>

lemma replace_escape: "replace w nl [backslash, CHR ''n''] = escape_newlines w"
  unfolding escape_newlines_def by (induction w) simp_all

lemma take_drop_nths:
  assumes "hi \<le> length t"
  shows "take (hi - lo) (drop lo t) = map (\<lambda>i. t ! i) [lo ..< hi]"
proof (rule nth_equalityI)
  show "length (take (hi - lo) (drop lo t)) = length (map (\<lambda>i. t ! i) [lo ..< hi])"
    using assms by simp
next
  fix i assume "i < length (take (hi - lo) (drop lo t))"
  then have "i < hi - lo" by simp
  then show "take (hi - lo) (drop lo t) ! i = map (\<lambda>i. t ! i) [lo ..< hi] ! i"
    using assms by (simp add: nth_map_upt)
qed

lemma py_slice_window:
  "py_slice t (max 0 (int s - 60)) (min (int (length t)) (int e + 60)) = window t (s, e)"
proof -
  let ?n = "int (length t)"
  let ?lo = "nat (clamp ?n (int s - 60))"
  let ?hi = "nat (clamp ?n (int e + 60))"
  have hi: "?hi \<le> length t" by (simp add: clamp_def)
  have lo: "min (max 0 (int s - 60)) ?n = clamp ?n (int s - 60)"
    by (simp add: clamp_def min_def max_def)
  have hi': "min (min ?n (int e + 60)) ?n = clamp ?n (int e + 60)"
    by (simp add: clamp_def min_def max_def)
  have c: "0 \<le> clamp ?n (int s - 60)" "0 \<le> clamp ?n (int e + 60)"
    by (simp_all add: clamp_def)
  have "py_slice t (max 0 (int s - 60)) (min ?n (int e + 60)) =
      take (nat (clamp ?n (int e + 60) - clamp ?n (int s - 60))) (drop ?lo t)"
    unfolding py_slice_def Let_def by (simp only: lo hi') simp
  also have "\<dots> = take (?hi - ?lo) (drop ?lo t)"
    using c by (simp add: nat_diff_distrib')
  also have "\<dots> = map (\<lambda>i. t ! i) [?lo ..< ?hi]"
    using hi by (rule take_drop_nths)
  finally show ?thesis by (simp add: window_def)
qed

lemma snippet_at_spec: "snippet_at t (int s) (int e) = escape_newlines (window t (s, e))"
  unfolding snippet_at_def Let_def by (simp add: py_slice_window replace_escape)

lemma count_list_card: "count_list xs c = card {i. i < length xs \<and> xs ! i = c}"
proof -
  have "count_list xs c = length (filter (\<lambda>x. x = c) xs)"
    by (induction xs) simp_all
  then show ?thesis by (simp add: length_filter_conv_card)
qed

lemma line_of_offset_spec: "line_of_offset t (int s) = spec_line t s"
proof -
  have "py_slice t 0 (int s) = take s t"
    using py_slice_nat[of t 0 s] by simp
  moreover have "{i. i < length (take s t) \<and> take s t ! i = nl} = {i. i < s \<and> i < length t \<and> t ! i = nl}"
    by auto
  ultimately show ?thesis
    unfolding line_of_offset_def spec_line_def by (simp add: count_list_card)
qed

lemma map_concat_single:
  assumes "\<And>x. x \<in> set xs \<Longrightarrow> map k (g x) = (if P x then [h x] else [])"
  shows "map k (concat (map g xs)) = map h (filter P xs)"
  using assms by (induction xs) simp_all

lemma scan_match_flagged:
  "scan_match u src [] m = [] \<longleftrightarrow> spec_policy (span_text src m) = []"
proof -
  have "(scan_match u src [] m = []) =
      (map (\<lambda>f. (issue_type f, severity f, message f)) (scan_match u src [] m) = [])"
    by simp
  then show ?thesis by (simp only: scan_match_policy)
qed

lemma scan_match_snippet:
  "map snippet (scan_match u src [] m) =
     (if spec_policy (span_text src m) \<noteq> [] then [Some (escape_newlines (window src m))] else [])"
proof (cases "scan_match u src [] m = []")
  case True
  then show ?thesis using scan_match_flagged[of u src m] by simp
next
  case False
  then have "map snippet (scan_match u src [] m) = [Some (snippet_at src (int (fst m)) (int (snd m)))]"
    unfolding scan_match_def Let_def by (simp split: if_splits)
  then show ?thesis using False scan_match_flagged[of u src m] snippet_at_spec[of src "fst m" "snd m"]
    by simp
qed

lemma scan_match_line:
  "map line (scan_match u src [] m) =
     (if spec_policy (span_text src m) \<noteq> [] then [Some (spec_line src (fst m))] else [])"
proof (cases "scan_match u src [] m = []")
  case True
  then show ?thesis using scan_match_flagged[of u src m] by simp
next
  case False
  then have "map line (scan_match u src [] m) = [Some (line_of_offset src (int (fst m)))]"
    unfolding scan_match_def Let_def by (simp split: if_splits)
  then show ?thesis using False scan_match_flagged[of u src m] line_of_offset_spec[of src "fst m"]
    by simp
qed

lemma findings_snippets:
  "\<exists>fs. rule111_findings (scan_unit u) = Some fs \<and>
     map snippet fs = map (\<lambda>m. Some (escape_newlines (window (code_or_empty u) m))) (flagged (code_or_empty u))"
  unfolding flagged_def
  by (simp add: scan_unit_findings map_concat_single[where P="\<lambda>m. spec_policy (span_text (code_or_empty u) m) \<noteq> []"] scan_match_snippet)

lemma findings_lines:
  "\<exists>fs. rule111_findings (scan_unit u) = Some fs \<and>
     map line fs = map (\<lambda>m. Some (spec_line (code_or_empty u) (fst m))) (flagged (code_or_empty u))"
  unfolding flagged_def
  by (simp add: scan_unit_findings map_concat_single[where P="\<lambda>m. spec_policy (span_text (code_or_empty u) m) \<noteq> []"] scan_match_line)

lemma two_line_findings:
  "map (\<lambda>f. (line f, snippet f)) (the (rule111_findings (scan_unit two_line_unit))) =
     [(Some 2, Some (''x.'' @ [backslash, CHR ''n''] @ ''open dataset f.''))]"
  by code_simp

lemma long_unit_snippet:
  "map (length \<circ> the \<circ> snippet) (the (rule111_findings (scan_unit long_unit))) = [133]"
  by code_simp

lemma spans_starts_sorted: "sorted_wrt (\<lambda>a b. fst a < fst b) (finditer STMT_RE t)"
proof -
  from spans_ok_sorted[OF finditer_spans_ok[of t]]
  have s: "sorted_wrt (\<lambda>a b. snd a \<le> fst b) (finditer STMT_RE t)"
    and b: "\<forall>m\<in>set (finditer STMT_RE t). stmt_span t (fst m) (snd m)" by simp_all
  show ?thesis
  proof (rule sorted_wrt_mono_rel[OF _ s])
    fix x y :: "nat \<times> nat"
    assume "x \<in> set (finditer STMT_RE t)" "snd x \<le> fst y"
    then show "fst x < fst y"
      using stmt_span_bounds(1)[of t "fst x" "snd x"] b by auto
  qed
qed

lemma flagged_sorted: "sorted_wrt (\<lambda>a b. fst a < fst b) (flagged t)"
  unfolding flagged_def using spans_starts_sorted by (rule sorted_wrt_filter)

lemma spec_line_mono: "s \<le> s' \<Longrightarrow> spec_line t s \<le> spec_line t s'"
proof -
  assume "s \<le> s'"
  then have "{i. i < s \<and> i < length t \<and> t ! i = nl} \<subseteq> {i. i < s' \<and> i < length t \<and> t ! i = nl}"
    by auto
  then have "card {i. i < s \<and> i < length t \<and> t ! i = nl} \<le> card {i. i < s' \<and> i < length t \<and> t ! i = nl}"
    by (intro card_mono) simp_all
  then show ?thesis by (simp add: spec_line_def)
qed

lemma window_length: "length (window t m) \<le> (snd m - fst m) + 120"
  unfolding window_def clamp_def by (simp add: min_def max_def) linarith

lemma escape_length: "length (escape_newlines w) = length w + count_list w nl"
  unfolding escape_newlines_def by (induction w) simp_all

lemma escape_no_newline: "nl \<notin> set (escape_newlines w)"
  unfolding escape_newlines_def by (induction w) (simp_all add: nl_def backslash_def)

section \<open>Letter case\<close>

lemma is_word_opt_ci: "lower_opt_eq p q \<Longrightarrow> is_word_opt p = is_word_opt q"
  unfolding lower_opt_eq_def is_word_opt_def
  by (cases p; cases q) (auto, (metis is_word_lower)+)

lemma head_opt_ci: "ci_eq s s' \<Longrightarrow> lower_opt_eq (head_opt s) (head_opt s')"
  unfolding ci_eq_def lower_opt_eq_def by (cases s; cases s') auto

lemma at_boundary_ci:
  "ci_eq s s' \<Longrightarrow> lower_opt_eq p q \<Longrightarrow> at_boundary p s = at_boundary q s'"
  unfolding at_boundary_def using is_word_opt_ci head_opt_ci by metis

lemma in_cls_ci: "lower x = lower y \<Longrightarrow> in_cls c x = in_cls c y"
  by (cases c) (auto, (metis is_space_lower)+)

lemma ci_eq_Cons: "ci_eq (x # xs) s' \<longleftrightarrow> (\<exists>y ys. s' = y # ys \<and> lower x = lower y \<and> ci_eq xs ys)"
  unfolding ci_eq_def by (cases s') auto

lemma ci_eq_Nil: "ci_eq [] s' \<longleftrightarrow> s' = []"
  unfolding ci_eq_def by auto

lemma lower_opt_eq_Some: "lower x = lower y \<Longrightarrow> lower_opt_eq (Some x) (Some y)"
  by (simp add: lower_opt_eq_def)

lemma rmatch_ci:
  "ci_eq s s' \<Longrightarrow> lower_opt_eq prev prev' \<Longrightarrow> rmatch p prev s = rmatch p prev' s'"
proof (induction p prev s arbitrary: prev' s' rule: rmatch.induct)
  case (1 prev s)
  show ?case by simp
next
  case (2 c r prev)
  then show ?case by (simp add: ci_eq_Nil)
next
  case (3 c r prev x xs)
  from "3.prems"(1) obtain y ys where s': "s' = y # ys" "lower x = lower y" "ci_eq xs ys"
    unfolding ci_eq_Cons by blast
  show ?case
  proof (cases "lower x = lower c")
    case True
    from "3.IH"[OF True s'(3) lower_opt_eq_Some[OF s'(2)]]
    show ?thesis using True s' by simp
  next
    case False
    then show ?thesis using s' by simp
  qed
next
  case (4 r prev s)
  have b: "at_boundary prev s = at_boundary prev' s'"
    using "4.prems" by (rule at_boundary_ci)
  show ?case
  proof (cases "at_boundary prev s")
    case True
    from "4.IH"[OF True "4.prems"] show ?thesis using True b by simp
  next
    case False
    then show ?thesis using b by simp
  qed
next
  case (5 c r prev)
  from "5.prems"(1) have "s' = []" by (simp add: ci_eq_Nil)
  then show ?case using "5.IH"[OF "5.prems"] by simp
next
  case (6 c r prev x xs)
  from "6.prems"(1) obtain y ys where s': "s' = y # ys" "lower x = lower y" "ci_eq xs ys"
    unfolding ci_eq_Cons by blast
  have cl: "in_cls c x = in_cls c y" using s'(2) by (rule in_cls_ci)
  show ?case
  proof (cases "in_cls c x")
    case True
    have a: "rmatch (Star c # r) (Some x) xs = rmatch (Star c # r) (Some y) ys"
      using "6.IH"(1)[OF True s'(3) lower_opt_eq_Some[OF s'(2)]] .
    show ?thesis
    proof (cases "rmatch (Star c # r) (Some x) xs")
      case None
      from "6.IH"(2)[OF True None "6.prems"]
      show ?thesis using True None a cl s' by simp
    next
      case (Some n)
      then show ?thesis using True a cl s' by simp
    qed
  next
    case False
    from "6.IH"(3)[OF False "6.prems"]
    show ?thesis using False cl s' by simp
  qed
next
  case (7 c r prev)
  then show ?case by (simp add: ci_eq_Nil)
next
  case (8 c r prev x xs)
  from "8.prems"(1) obtain y ys where s': "s' = y # ys" "lower x = lower y" "ci_eq xs ys"
    unfolding ci_eq_Cons by blast
  have cl: "in_cls c x = in_cls c y" using s'(2) by (rule in_cls_ci)
  show ?case
  proof (cases "in_cls c x")
    case True
    from "8.IH"[OF True s'(3) lower_opt_eq_Some[OF s'(2)]]
    show ?thesis using True cl s' by simp
  next
    case False
    then show ?thesis using cl s' by simp
  qed
next
  case (9 a b r prev s)
  have a: "rmatch (a @ r) prev s = rmatch (a @ r) prev' s'"
    using "9.IH"(1)[OF "9.prems"] .
  show ?case
  proof (cases "rmatch (a @ r) prev s")
    case None
    from "9.IH"(2)[OF None "9.prems"] show ?thesis using None a by simp
  next
    case (Some n)
    then show ?thesis using a by simp
  qed
qed

lemma search_from_ci:
  "ci_eq s s' \<Longrightarrow> lower_opt_eq prev prev' \<Longrightarrow>
   search_from p prev s off = search_from p prev' s' off"
proof (induction s arbitrary: s' prev prev' off)
  case Nil
  then have "s' = []" by (simp add: ci_eq_Nil)
  then show ?case using rmatch_ci[OF Nil.prems, of p] by simp
next
  case (Cons x xs)
  from Cons.prems(1) obtain y ys where s': "s' = y # ys" "lower x = lower y" "ci_eq xs ys"
    unfolding ci_eq_Cons by blast
  have "rmatch p prev (x # xs) = rmatch p prev' (y # ys)"
    using rmatch_ci[OF Cons.prems, of p] s'(1) by simp
  moreover have "search_from p (Some x) xs (Suc off) = search_from p (Some y) ys (Suc off)"
    using Cons.IH[OF s'(3) lower_opt_eq_Some[OF s'(2)]] .
  ultimately show ?case using s'(1) by (simp split: option.splits)
qed

lemma search_ci: "ci_eq s s' \<Longrightarrow> search p s = search p s'"
  unfolding search_def by (rule search_from_ci) (simp_all add: lower_opt_eq_def)

lemma finditer_from_ci:
  "ci_eq s s' \<Longrightarrow> lower_opt_eq prev prev' \<Longrightarrow>
   finditer_from p prev s off skip = finditer_from p prev' s' off skip"
proof (induction s arbitrary: s' prev prev' off skip)
  case Nil
  then have "s' = []" by (simp add: ci_eq_Nil)
  then show ?case using rmatch_ci[OF Nil.prems, of p] by simp
next
  case (Cons x xs)
  from Cons.prems(1) obtain y ys where s': "s' = y # ys" "lower x = lower y" "ci_eq xs ys"
    unfolding ci_eq_Cons by blast
  have r: "rmatch p prev (x # xs) = rmatch p prev' (y # ys)"
    using rmatch_ci[OF Cons.prems, of p] s'(1) by simp
  have ih: "finditer_from p (Some x) xs (Suc off) k = finditer_from p (Some y) ys (Suc off) k" for k
    using Cons.IH[OF s'(3) lower_opt_eq_Some[OF s'(2)]] .
  show ?case
  proof (cases skip)
    case 0
    then show ?thesis using r ih s'(1) by (simp split: option.splits)
  next
    case (Suc k)
    then show ?thesis using ih s'(1) by simp
  qed
qed

lemma finditer_ci: "ci_eq t t' \<Longrightarrow> finditer p t = finditer p t'"
  unfolding finditer_def by (rule finditer_from_ci) (simp_all add: lower_opt_eq_def)

lemma recase_ci_eq: "recase t t' \<Longrightarrow> ci_eq t t'"
proof (induction rule: recase.induct)
  case (same t)
  show ?case by (simp add: ci_eq_def)
next
  case (variant t a k b kw k')
  then show ?case by (simp add: ci_eq_def)
qed

lemma ci_eq_take_drop: "ci_eq t t' \<Longrightarrow> ci_eq (take n (drop k t)) (take n (drop k t'))"
  unfolding ci_eq_def by (simp add: take_map[symmetric] drop_map[symmetric])

lemma py_slice_ci: "ci_eq t t' \<Longrightarrow> ci_eq (py_slice t i j) (py_slice t' i j)"
  unfolding py_slice_def Let_def using ci_eq_length[of t t'] ci_eq_take_drop[of t t'] by simp

lemma count_nl_lower: "count_list (map lower xs) nl = count_list xs nl"
  by (induction xs) (simp_all add: lower_eq_nl)

lemma count_nl_ci: "ci_eq xs ys \<Longrightarrow> count_list xs nl = count_list ys nl"
  unfolding ci_eq_def using count_nl_lower[of xs] count_nl_lower[of ys] by simp

lemma line_of_offset_ci: "ci_eq t t' \<Longrightarrow> line_of_offset t i = line_of_offset t' i"
  unfolding line_of_offset_def using count_nl_ci[OF py_slice_ci[of t t' 0 i]] by simp

lemma scan_match_ci:
  assumes "ci_eq src src'"
  shows "map (\<lambda>f. (issue_type f, severity f, line f)) (scan_match u src [] m) =
         map (\<lambda>f. (issue_type f, severity f, line f)) (scan_match u' src' [] m)"
proof -
  have s: "search p (py_slice src (int (fst m)) (int (snd m))) =
           search p (py_slice src' (int (fst m)) (int (snd m)))" for p
    using py_slice_ci[OF assms] by (rule search_ci)
  have l: "line_of_offset src (int (fst m)) = line_of_offset src' (int (fst m))"
    using assms by (rule line_of_offset_ci)
  show ?thesis unfolding scan_match_def Let_def s l by simp
qed

lemma code_or_empty_update: "code_or_empty (u\<lparr>u_code := Some t\<rparr>) = t"
  by (simp add: code_or_empty_def)

lemma scan_unit_ci:
  assumes "ci_eq t t'"
  shows "map (\<lambda>f. (issue_type f, severity f, line f))
           (the (rule111_findings (scan_unit (u\<lparr>u_code := Some t\<rparr>)))) =
         map (\<lambda>f. (issue_type f, severity f, line f))
           (the (rule111_findings (scan_unit (u\<lparr>u_code := Some t'\<rparr>))))"
proof -
  let ?p = "\<lambda>f. (issue_type f, severity f, line f)"
  have "(\<lambda>m. map ?p (scan_match (u\<lparr>u_code := Some t\<rparr>) t [] m)) =
        (\<lambda>m. map ?p (scan_match (u\<lparr>u_code := Some t'\<rparr>) t' [] m))"
    using scan_match_ci[OF assms] by blast
  then have "concat (map (\<lambda>m. map ?p (scan_match (u\<lparr>u_code := Some t\<rparr>) t [] m)) (finditer STMT_RE t')) =
        concat (map (\<lambda>m. map ?p (scan_match (u\<lparr>u_code := Some t'\<rparr>) t' [] m)) (finditer STMT_RE t'))"
    by (simp only:)
  then show ?thesis
    by (simp add: scan_unit_findings code_or_empty_update map_concat finditer_ci[OF assms] comp_def)
qed

section \<open>The claims\<close>

text \<open>
  Claim C1. For each statement span, in order, \<open>scan_unit\<close> applies the two-step policy
  to the text of the span: with no phrase IN, whitespace, TEXT or BINARY, whitespace,
  MODE it emits exactly one finding \<open>OpenDatasetNoMode\<close> with severity \<open>warning\<close> and
  its message, and checks nothing else; otherwise, with the phrase IN TEXT MODE and no
  token ENCODING followed by whitespace and a character that is not whitespace, it
  emits exactly one finding \<open>OpenDatasetTextNoEncoding\<close> with severity \<open>info\<close> and its
  message; otherwise it emits nothing. The words of a phrase are tokens: they start and
  end at a word boundary, the \<^verbatim>\<open>\b\<close> of the patterns, and match in any letter case.
\<close>

theorem two_step_policy:
  "\<exists>fs. rule111_findings (scan_unit u) = Some fs \<and>
     map (\<lambda>f. (issue_type f, severity f, message f)) fs =
       concat (map (\<lambda>m. spec_policy (span_text (code_or_empty u) m))
                   (finditer STMT_RE (code_or_empty u)))"
  by (simp add: scan_unit_findings map_concat comp_def scan_match_policy)

theorem two_step_policy_witness:
  "spec_policy ''OPEN DATASET f.'' =
     [(Some ''OpenDatasetNoMode'', Some ''warning'', Some ''OPEN DATASET without MODE or ENCODING.'')]"
proof -
  have "code_or_empty example_unit = ''OPEN DATASET f.''"
    by (simp add: code_or_empty_def example_unit_def)
  then show ?thesis
    using two_step_policy[of example_unit]
    by (simp add: example_findings example_spans span_text_def)
qed

text \<open>
  Claim C2. The spans that \<open>scan_unit\<close> analyses are the statement spans of the text,
  taken from left to right: each begins at an occurrence of the token sequence
  OPEN DATASET and ends just after the first \<^verbatim>\<open>.\<close> that follows; the first span is
  the leftmost one, and the search resumes at the end of each span, so the spans do not
  overlap; every span ends with a \<^verbatim>\<open>.\<close>, so an occurrence with no \<^verbatim>\<open>.\<close> after it
  gives no span.
\<close>

theorem statement_spans:
  "spans_ok t 0 (finditer STMT_RE t) \<and>
   sorted_wrt (\<lambda>a b. snd a \<le> fst b) (finditer STMT_RE t) \<and>
   (\<forall>m\<in>set (finditer STMT_RE t).
      fst m < snd m \<and> snd m \<le> length t \<and> t ! (snd m - 1) = CHR ''.'')"
proof -
  have ok: "spans_ok t 0 (finditer STMT_RE t)" by (rule finditer_spans_ok)
  from spans_ok_sorted[OF ok] stmt_span_bounds ok show ?thesis by blast
qed

theorem statement_spans_witness:
  "stmt_span ''OPEN DATASET f.'' 0 15 \<and> ''OPEN DATASET f.'' ! 14 = CHR ''.''"
  using statement_spans[of "''OPEN DATASET f.''"] by (simp add: example_spans)

text \<open>
  The bound of claim C3 fails. The window of a snippet holds the statement itself
  besides the 60 characters on each side: a text without any newline, with 60
  characters before and after a statement of 13 characters, gives a snippet of 133
  characters, where the claim allows 120.
\<close>

theorem snippet_bound_counterexample:
  "map (length \<circ> the \<circ> snippet) (the (rule111_findings (scan_unit long_unit))) = [133] \<and>
   count_list (code_or_empty long_unit) nl = 0"
proof -
  have "count_list (code_or_empty long_unit) nl = 0"
    by (simp add: code_or_empty_def long_unit_def nl_def count_list_0_iff)
  then show ?thesis using long_unit_snippet by simp
qed

text \<open>
  Claim C3, amended. The snippet of a finding is the escaped window of its span: the
  window has at most 120 source characters more than the span is long, the escaping
  adds one character for each newline of the window, and the snippet contains no
  newline character.
\<close>

theorem snippet_bound:
  "\<exists>fs. rule111_findings (scan_unit u) = Some fs \<and>
     list_all2 (\<lambda>f m. \<exists>w. snippet f = Some (escape_newlines w) \<and>
                   length w \<le> (snd m - fst m) + 120 \<and>
                   length (escape_newlines w) = length w + count_list w nl \<and>
                   nl \<notin> set (escape_newlines w))
       fs (flagged (code_or_empty u))"
proof -
  let ?src = "code_or_empty u"
  obtain fs where fs: "rule111_findings (scan_unit u) = Some fs"
    "map snippet fs = map (\<lambda>m. Some (escape_newlines (window ?src m))) (flagged ?src)"
    using findings_snippets by blast
  from fs(2) have "list_all2 (=) (map snippet fs) (map (\<lambda>m. Some (escape_newlines (window ?src m))) (flagged ?src))"
    by (simp add: list.rel_eq)
  then have "list_all2 (\<lambda>f m. snippet f = Some (escape_newlines (window ?src m))) fs (flagged ?src)"
    by (simp add: list_all2_map1 list_all2_map2)
  then have "list_all2 (\<lambda>f m. \<exists>w. snippet f = Some (escape_newlines w) \<and>
                   length w \<le> (snd m - fst m) + 120 \<and>
                   length (escape_newlines w) = length w + count_list w nl \<and>
                   nl \<notin> set (escape_newlines w)) fs (flagged ?src)"
    by (rule list_all2_mono) (use window_length escape_length escape_no_newline in blast)
  with fs(1) show ?thesis by blast
qed

theorem snippet_bound_witness:
  "length (flagged (code_or_empty long_unit)) = 1 \<and>
   list_all2 (\<lambda>f m. \<exists>w. snippet f = Some (escape_newlines w) \<and>
                   length w \<le> (snd m - fst m) + 120 \<and>
                   length (escape_newlines w) = length w + count_list w nl \<and>
                   nl \<notin> set (escape_newlines w))
       (the (rule111_findings (scan_unit long_unit))) (flagged (code_or_empty long_unit))"
proof -
  from snippet_bound[of long_unit] obtain fs where fs: "rule111_findings (scan_unit long_unit) = Some fs"
    "list_all2 (\<lambda>f m. \<exists>w. snippet f = Some (escape_newlines w) \<and>
                   length w \<le> (snd m - fst m) + 120 \<and>
                   length (escape_newlines w) = length w + count_list w nl \<and>
                   nl \<notin> set (escape_newlines w)) fs (flagged (code_or_empty long_unit))"
    by blast
  have "length fs = 1" using long_unit_snippet fs(1) by (metis length_map list.size(3,4) option.sel One_nat_def add_0)
  moreover have "length fs = length (flagged (code_or_empty long_unit))"
    using fs(2) by (rule list_all2_lengthD)
  ultimately show ?thesis using fs by simp
qed

text \<open>
  Claim C4. The snippet of a finding whose span starts at \<open>s\<close> and ends at \<open>e\<close> is the
  substring of the text from \<open>s - 60\<close> to \<open>e + 60\<close>, both bounds clamped to the text,
  with every newline replaced by a backslash and the letter n.
\<close>

theorem snippet_equals_window:
  "\<exists>fs. rule111_findings (scan_unit u) = Some fs \<and>
     map snippet fs =
       map (\<lambda>m. Some (escape_newlines (window (code_or_empty u) m))) (flagged (code_or_empty u))"
  by (rule findings_snippets)

theorem snippet_equals_window_witness:
  "map (\<lambda>m. Some (escape_newlines (window (''x.'' @ [nl] @ ''open dataset f.'') m)))
       (flagged (''x.'' @ [nl] @ ''open dataset f.'')) =
     [Some (''x.'' @ [backslash, CHR ''n''] @ ''open dataset f.'')]"
proof -
  have c: "code_or_empty two_line_unit = ''x.'' @ [nl] @ ''open dataset f.''"
    by (simp add: code_or_empty_def two_line_unit_def)
  from snippet_equals_window[of two_line_unit] two_line_findings
  have "map (\<lambda>m. Some (escape_newlines (window (code_or_empty two_line_unit) m)))
       (flagged (code_or_empty two_line_unit)) = [Some (''x.'' @ [backslash, CHR ''n''] @ ''open dataset f.'')]"
    by (auto simp: scan_unit_findings)
  then show ?thesis by (simp only: c)
qed

text \<open>
  Claim C5. The line of a finding is one more than the number of newline characters
  before the start of its span; the findings come in ascending order of the start of
  their spans, so their lines never decrease.
\<close>

theorem line_numbers:
  "\<exists>fs. rule111_findings (scan_unit u) = Some fs \<and>
     map line fs = map (\<lambda>m. Some (spec_line (code_or_empty u) (fst m))) (flagged (code_or_empty u)) \<and>
     sorted_wrt (\<lambda>a b. fst a < fst b) (flagged (code_or_empty u)) \<and>
     sorted_wrt (\<lambda>f g. the (line f) \<le> the (line g)) fs"
proof -
  let ?src = "code_or_empty u"
  obtain fs where fs: "rule111_findings (scan_unit u) = Some fs"
    "map line fs = map (\<lambda>m. Some (spec_line ?src (fst m))) (flagged ?src)"
    using findings_lines by blast
  have "sorted_wrt (\<lambda>a b. spec_line ?src (fst a) \<le> spec_line ?src (fst b)) (flagged ?src)"
  proof (rule sorted_wrt_mono_rel[OF _ flagged_sorted[of ?src]])
    fix a b :: "nat \<times> nat"
    assume "fst a < fst b"
    then show "spec_line ?src (fst a) \<le> spec_line ?src (fst b)"
      by (intro spec_line_mono) simp
  qed
  then have "sorted_wrt (\<lambda>a b. the a \<le> the b) (map (\<lambda>m. Some (spec_line ?src (fst m))) (flagged ?src))"
    by (simp add: sorted_wrt_map)
  then have "sorted_wrt (\<lambda>a b. the a \<le> the b) (map line fs)" by (simp only: fs(2))
  then have "sorted_wrt (\<lambda>f g. the (line f) \<le> the (line g)) fs" by (simp add: sorted_wrt_map)
  then show ?thesis using fs flagged_sorted by blast
qed

theorem line_numbers_witness:
  "map (\<lambda>m. Some (spec_line (''x.'' @ [nl] @ ''open dataset f.'') (fst m)))
       (flagged (''x.'' @ [nl] @ ''open dataset f.'')) = [Some 2]"
proof -
  have c: "code_or_empty two_line_unit = ''x.'' @ [nl] @ ''open dataset f.''"
    by (simp add: code_or_empty_def two_line_unit_def)
  from line_numbers[of two_line_unit] two_line_findings
  have "map (\<lambda>m. Some (spec_line (code_or_empty two_line_unit) (fst m)))
       (flagged (code_or_empty two_line_unit)) = [Some 2]"
    by (auto simp: scan_unit_findings)
  then show ?thesis by (simp only: c)
qed

text \<open>
  Claim C6. Every finding that \<open>scan_unit\<close> produces from a unit carries that unit's
  identity fields unchanged: \<open>pgm_name\<close>, \<open>inc_name\<close>, \<open>type\<close>, \<open>name\<close>,
  \<open>start_line\<close> and \<open>end_line\<close>.
\<close>

theorem finding_identity_fields:
  "\<exists>fs. rule111_findings (scan_unit u) = Some fs \<and>
     (\<forall>f\<in>set fs. pgm_name f = Some (u_pgm_name u) \<and> inc_name f = Some (u_inc_name u) \<and>
        type f = Some (u_type u) \<and> name f = u_name u \<and>
        start_line f = u_start_line u \<and> end_line f = u_end_line u)"
  using scan_match_identity by (fastforce simp: scan_unit_findings)

theorem finding_identity_fields_witness:
  "length (the (rule111_findings (scan_unit example_unit))) = 1 \<and>
   map pgm_name (the (rule111_findings (scan_unit example_unit))) = [Some (u_pgm_name example_unit)] \<and>
   map inc_name (the (rule111_findings (scan_unit example_unit))) = [Some (u_inc_name example_unit)] \<and>
   map type (the (rule111_findings (scan_unit example_unit))) = [Some (u_type example_unit)] \<and>
   map name (the (rule111_findings (scan_unit example_unit))) = [u_name example_unit] \<and>
   map start_line (the (rule111_findings (scan_unit example_unit))) = [u_start_line example_unit] \<and>
   map end_line (the (rule111_findings (scan_unit example_unit))) = [u_end_line example_unit]"
proof -
  obtain f where f: "rule111_findings (scan_unit example_unit) = Some [f]"
    using example_findings by blast
  from finding_identity_fields[of example_unit] f
  have "pgm_name f = Some (u_pgm_name example_unit) \<and> inc_name f = Some (u_inc_name example_unit) \<and>
        type f = Some (u_type example_unit) \<and> name f = u_name example_unit \<and>
        start_line f = u_start_line example_unit \<and> end_line f = u_end_line example_unit"
    by simp
  then show ?thesis using f by simp
qed

text \<open>
  Claim C7. A unit whose text has no occurrence of OPEN DATASET followed by a \<^verbatim>\<open>.\<close>
  (no statement span; in particular no occurrence at all, as a token or not, with a
  \<^verbatim>\<open>.\<close> after it) gets the empty list of findings, and so does a unit whose code is
  absent or empty, which is scanned as the empty text. \<open>scan_unit\<close> has no failing
  branch: the source raises nowhere, and every operation it uses is defined on all the
  values it gets.
\<close>

theorem no_occurrence_no_findings:
  "((\<forall>s e. \<not> stmt_span (code_or_empty u) s e) \<longrightarrow> rule111_findings (scan_unit u) = Some []) \<and>
   (\<not> open_dataset_dot (code_or_empty u) \<longrightarrow> rule111_findings (scan_unit u) = Some []) \<and>
   (u_code u = None \<or> u_code u = Some [] \<longrightarrow>
      code_or_empty u = [] \<and> rule111_findings (scan_unit u) = Some [])"
proof -
  have a: "rule111_findings (scan_unit u) = Some []" if "\<not> open_dataset_dot (code_or_empty u)"
    using no_occurrence_no_spans[OF that] by (simp add: scan_unit_findings)
  have b: "rule111_findings (scan_unit u) = Some []" if "\<forall>s e. \<not> stmt_span (code_or_empty u) s e"
    using no_span_no_spans[OF that] by (simp add: scan_unit_findings)
  have "code_or_empty u = []" if "u_code u = None \<or> u_code u = Some []"
    using that by (auto simp: code_or_empty_def)
  then show ?thesis using a b not_open_dataset_dot_empty by auto
qed

theorem no_occurrence_no_findings_witness:
  "\<not> open_dataset_dot ''OPEN DATASET f'' \<and> rule111_findings (scan_unit dotless_unit) = Some [] \<and>
   rule111_findings (scan_unit (dotless_unit\<lparr>u_code := None\<rparr>)) = Some []"
proof -
  have c: "code_or_empty dotless_unit = ''OPEN DATASET f''"
    by (simp add: code_or_empty_def dotless_unit_def)
  have n: "\<not> open_dataset_dot ''OPEN DATASET f''"
  proof
    assume "open_dataset_dot ''OPEN DATASET f''"
    then obtain a o' w d b where "''OPEN DATASET f'' = a @ o' @ w @ d @ b" "CHR ''.'' \<in> set b"
      unfolding open_dataset_dot_def by blast
    then have "CHR ''.'' \<in> set ''OPEN DATASET f''" by (metis Un_iff set_append)
    then show False by simp
  qed
  from no_occurrence_no_findings[of dotless_unit] n c
  have "rule111_findings (scan_unit dotless_unit) = Some []" by simp
  moreover from no_occurrence_no_findings[of "dotless_unit\<lparr>u_code := None\<rparr>"]
  have "rule111_findings (scan_unit (dotless_unit\<lparr>u_code := None\<rparr>)) = Some []" by simp
  ultimately show ?thesis using n by simp
qed

text \<open>
  Claim C8. For a batch of units the endpoint scans each unit once, in order, and
  returns exactly the scanned units whose list of findings is not empty, each with its
  findings in \<open>rule111_findings\<close>.
\<close>

theorem remediate_array_filters:
  "scan_rule111 units = filter (\<lambda>res. rule111_findings res \<noteq> Some []) (map scan_unit units)"
  unfolding scan_rule111_def by (simp add: foldl_scan_rule111)

theorem remediate_array_filters_witness:
  "scan_rule111 [clean_unit, example_unit] = [scan_unit example_unit]"
proof -
  have "rule111_findings (scan_unit clean_unit) = Some []" by code_simp
  then show ?thesis
    using remediate_array_filters[of "[clean_unit, example_unit]"]
    by (simp add: example_findings)
qed

text \<open>
  Claim C9. Replacing occurrences of the keywords OPEN, DATASET, IN, TEXT, BINARY, MODE
  and ENCODING with other letter-case variants changes neither the statement spans nor
  the issue type, the severity and the line of any finding.
\<close>

theorem keyword_case_insensitive:
  "recase t t' \<Longrightarrow>
     finditer STMT_RE t = finditer STMT_RE t' \<and>
     map (\<lambda>f. (issue_type f, severity f, line f))
       (the (rule111_findings (scan_unit (u\<lparr>u_code := Some t\<rparr>)))) =
     map (\<lambda>f. (issue_type f, severity f, line f))
       (the (rule111_findings (scan_unit (u\<lparr>u_code := Some t'\<rparr>))))"
  using recase_ci_eq[of t t'] finditer_ci[of t t' STMT_RE] scan_unit_ci[of t t' u] by simp

theorem keyword_case_insensitive_witness:
  "recase ''OPEN DATASET f.'' ''Open dataSET f.'' \<and>
   finditer STMT_RE ''Open dataSET f.'' = [(0, 15)] \<and>
   map (\<lambda>f. (issue_type f, severity f, line f))
     (the (rule111_findings (scan_unit (example_unit\<lparr>u_code := Some ''Open dataSET f.''\<rparr>)))) =
     [(Some ''OpenDatasetNoMode'', Some ''warning'', Some 1)]"
proof -
  have c: "ci_eq ''OPEN'' ''OPEN''" "ci_eq ''Open'' ''OPEN''"
    "ci_eq ''DATASET'' ''DATASET''" "ci_eq ''dataSET'' ''DATASET''"
    by code_simp+
  have k: "''OPEN'' \<in> set keyword_list" "''DATASET'' \<in> set keyword_list"
    by (simp_all add: keyword_list_def)
  have "recase ''OPEN DATASET f.'' ([] @ ''OPEN'' @ '' DATASET f.'')"
    using same[of "''OPEN DATASET f.''"] by simp
  from variant[OF this k(1) c(1) c(2)]
  have "recase ''OPEN DATASET f.'' (''Open '' @ ''DATASET'' @ '' f.'')" by simp
  from variant[OF this k(2) c(3) c(4)]
  have 2: "recase ''OPEN DATASET f.'' (''Open '' @ ''dataSET'' @ '' f.'')" .
  then have r: "recase ''OPEN DATASET f.'' ''Open dataSET f.''" by simp
  have e: "example_unit\<lparr>u_code := Some ''OPEN DATASET f.''\<rparr> = example_unit"
    by (simp add: example_unit_def)
  from keyword_case_insensitive[OF r, of example_unit] show ?thesis
    using r by (simp add: e example_spans example_findings)
qed

text \<open>
  Claim C10. The issue type of every finding is one of the two kinds, and the severity
  is \<open>warning\<close> exactly for \<open>OpenDatasetNoMode\<close> and \<open>info\<close> exactly for
  \<open>OpenDatasetTextNoEncoding\<close>.
\<close>

theorem issue_type_severity:
  "\<exists>fs. rule111_findings (scan_unit u) = Some fs \<and>
     (\<forall>f\<in>set fs.
        (issue_type f = Some ''OpenDatasetNoMode'' \<or> issue_type f = Some ''OpenDatasetTextNoEncoding'') \<and>
        (severity f = Some ''warning'') = (issue_type f = Some ''OpenDatasetNoMode'') \<and>
        (severity f = Some ''info'') = (issue_type f = Some ''OpenDatasetTextNoEncoding''))"
proof -
  have "\<forall>f\<in>set (concat (map (scan_match u (code_or_empty u) []) (finditer STMT_RE (code_or_empty u)))).
        (issue_type f = Some ''OpenDatasetNoMode'' \<or> issue_type f = Some ''OpenDatasetTextNoEncoding'') \<and>
        (severity f = Some ''warning'') = (issue_type f = Some ''OpenDatasetNoMode'') \<and>
        (severity f = Some ''info'') = (issue_type f = Some ''OpenDatasetTextNoEncoding'')"
  proof
    fix f assume "f \<in> set (concat (map (scan_match u (code_or_empty u) []) (finditer STMT_RE (code_or_empty u))))"
    then obtain m where "f \<in> set (scan_match u (code_or_empty u) [] m)" by auto
    from scan_match_kinds[OF this]
    show "(issue_type f = Some ''OpenDatasetNoMode'' \<or> issue_type f = Some ''OpenDatasetTextNoEncoding'') \<and>
        (severity f = Some ''warning'') = (issue_type f = Some ''OpenDatasetNoMode'') \<and>
        (severity f = Some ''info'') = (issue_type f = Some ''OpenDatasetTextNoEncoding'')"
      by auto
  qed
  then show ?thesis by (simp add: scan_unit_findings)
qed

theorem issue_type_severity_witness:
  "map issue_type (the (rule111_findings (scan_unit example_unit))) = [Some ''OpenDatasetNoMode''] \<and>
   map severity (the (rule111_findings (scan_unit example_unit))) = [Some ''warning'']"
proof -
  obtain f where f: "rule111_findings (scan_unit example_unit) = Some [f]"
     and i: "issue_type f = Some ''OpenDatasetNoMode''"
    using example_findings by simp
  from issue_type_severity[of example_unit] f
  have "(severity f = Some ''warning'') = (issue_type f = Some ''OpenDatasetNoMode'')" by simp
  with i have "severity f = Some ''warning''" by simp
  with i f show ?thesis by simp
qed

end
